theory Spec2Isabelle
  imports Complex_Main
begin

section \<open>The evolution description of a market model\<close>

text \<open>
  A shallow embedding of \<^verbatim>\<open>ql/MarketModels/evolutiondescription.cpp\<close>.

  \<^item> \<^verbatim>\<open>Time\<close> (a \<^verbatim>\<open>double\<close>) is modelled by \<open>real\<close>; the values of the program are
    the reals that \<open>is_double\<close> holds of. Comparisons and the minimum of two
    times are exact. The subtraction of two times is rounded to the nearest
    double (\<open>double_sub\<close>). Infinities and NaN are not modelled.
  \<^item> \<^verbatim>\<open>Size\<close> (an unsigned 64-bit \<^verbatim>\<open>size_t\<close>) is modelled by \<open>nat\<close>. The only
    place where the code can wrap around is \<^verbatim>\<open>size()-1\<close> on an empty vector; that
    wrap-around is written out in \<open>size_minus_one\<close>.
  \<^item> A \<^verbatim>\<open>std::vector\<close> is a list, the \<^verbatim>\<open>Matrix\<close> a list of rows.
  \<^item> \<^verbatim>\<open>QL_REQUIRE\<close> throws; every throw is a value \<open>Inl e\<close>. The error carries the
    values that the message of the source prints.
  \<^item> Reading a vector past its end is undefined in C++. The model makes it the
    error \<open>OutOfBounds\<close>, so that "the read is in bounds" is a statement about
    the result.
\<close>

type_synonym Time = real
type_synonym Size = nat

definition Size_max :: Size where
  "Size_max = 18446744073709551615"

text \<open>\<^verbatim>\<open>v.size()-1\<close> in unsigned arithmetic.\<close>

definition size_minus_one :: "Size \<Rightarrow> Size" where
  "size_minus_one n = (if n = 0 then Size_max else n - 1)"

datatype error =
    TooFewRateTimes                     \<comment> \<open>Rate times must have 2 elements at least\<close>
  | NegativeFirstRateTime               \<comment> \<open>first rate time must be non negative\<close>
  | RateTimesNotIncreasing              \<comment> \<open>rate times must be strictly increasing\<close>
  | NoEvolutionTimes                    \<comment> \<open>Evolution times must have 1 elements at least\<close>
  | EvolutionTimesNotIncreasing         \<comment> \<open>Evolution times must be strictly increasing\<close>
  | EvolutionPastLastRate               \<comment> \<open>The last evolution time is past the last rate time\<close>
  | RelevanceRatesMismatch              \<comment> \<open>relevanceRates / evolutionTimes mismatch\<close>
  | SizeMismatch Size Size              \<comment> \<open>numeraires.size(), evolutionTimes.size()\<close>
  | NumeraireExpired Size Time Size Time
      \<comment> \<open>step, evolution time, numeraire, rate time of the numeraire\<close>
  | OffsetTooLarge Size Size            \<comment> \<open>offset, max allowed value for numeraire\<close>
  | LengthError                         \<comment> \<open>a vector of \<open>Size_max\<close> elements was requested\<close>
  | OutOfBounds                         \<comment> \<open>a read past the end of a vector (undefined in C++)\<close>

record EvolutionDescription =
  rateTimes :: "Time list"
  evolutionTimes :: "Time list"
  steps :: Size
  relevanceRates :: "(Size \<times> Size) list"
  rateTaus :: "Time list"
  effStopTime :: "Time list list"
  firstAliveRate :: "Size list"

subsection \<open>Arithmetic of times\<close>

text \<open>Rounding of a real to an integer, ties to the even one.\<close>

definition round_half_even :: "real \<Rightarrow> int" where
  "round_half_even y =
     (let f = \<lfloor>y\<rfloor>; d = y - of_int f in
      if d < 1 / 2 then f else if 1 / 2 < d then f + 1 else if even f then f else f + 1)"

text \<open>The power of two at or below \<open>x\<close>, for \<open>x \<ge> 1\<close> (halving) and for
  \<open>0 \<le> x < 1\<close> (doubling). The smallest normal binade starts at \<open>2^-1022\<close>; below
  it the doubles are evenly spaced.\<close>

function unit_up :: "real \<Rightarrow> real \<Rightarrow> real" where
  "unit_up x u = (if 2 \<le> x then unit_up (x / 2) (2 * u) else u)"
  by pat_completeness auto
termination
proof (relation "measure (\<lambda>(x, u). nat \<lfloor>x\<rfloor>)")
  show "wf (measure (\<lambda>(x, u). nat \<lfloor>x\<rfloor>))" by simp
next
  fix x u :: real assume "2 \<le> x"
  then have "x / 2 \<le> x - 1" by simp
  then have "\<lfloor>x / 2\<rfloor> \<le> \<lfloor>x - 1\<rfloor>" by (rule floor_mono)
  moreover have "2 \<le> \<lfloor>x\<rfloor>" using \<open>2 \<le> x\<close> by (simp add: le_floor_iff)
  ultimately show "((x / 2, 2 * u), (x, u)) \<in> measure (\<lambda>(x, u). nat \<lfloor>x\<rfloor>)"
    by simp
qed

declare unit_up.simps [simp del]

primrec unit_down :: "nat \<Rightarrow> real \<Rightarrow> real \<Rightarrow> real" where
  "unit_down 0 x u = u"
| "unit_down (Suc n) x u = (if x < 1 then unit_down n (2 * x) (u / 2) else u)"

definition binade_unit :: "real \<Rightarrow> real" where
  "binade_unit x = (if 1 \<le> x then unit_up x 1 else unit_down 1022 x 1)"

text \<open>The distance between neighbouring doubles around \<open>x\<close>: 52 binary places
  below the binade of \<open>x\<close>, and \<open>2^-1074\<close> for subnormal \<open>x\<close>.\<close>

definition ulp :: "real \<Rightarrow> real" where
  "ulp x = binade_unit \<bar>x\<bar> / 2 ^ 52"

text \<open>Modelled from the spec: the declaration of \<^verbatim>\<open>Time\<close> is not among the sources;
  the specification calls times floating-point values, and they are taken as
  IEEE 754 binary64 numbers (the \<^verbatim>\<open>double\<close> of C++), rounded to nearest, ties to
  even. The exponent is not bounded above: a result of \<open>2^1024\<close> or more, which
  the machine replaces by an infinity, is outside the model. The difference of
  two doubles \<open>0 \<le> a < b\<close> is at most \<open>b\<close> and never that large.\<close>

definition round_double :: "real \<Rightarrow> Time" where
  "round_double x = of_int (round_half_even (x / ulp x)) * ulp x"

text \<open>\<^verbatim>\<open>a - b\<close> on two values of type \<^verbatim>\<open>Time\<close>.\<close>

definition double_sub :: "Time \<Rightarrow> Time \<Rightarrow> Time" where
  "double_sub a b = round_double (a - b)"

text \<open>The reals that are doubles.\<close>

definition is_double :: "Time \<Rightarrow> bool" where
  "is_double t = (round_double t = t)"

subsection \<open>Loops\<close>

text \<open>\<^verbatim>\<open>for (i = a; i < b; ++i) body\<close>, run as \<open>for_loop [a..<b] body\<close>: the body
  updates the loop's state or throws, and a throw ends the loop.\<close>

primrec for_loop :: "nat list \<Rightarrow> (nat \<Rightarrow> 's \<Rightarrow> error + 's) \<Rightarrow> 's \<Rightarrow> error + 's" where
  "for_loop [] body s = Inr s"
| "for_loop (i # is) body s =
     (case body i s of Inl e \<Rightarrow> Inl e | Inr s' \<Rightarrow> for_loop is body s')"

text \<open>\<^verbatim>\<open>while (cond(v[j])) ++j;\<close> The source has no bound on \<open>j\<close>; the model
  reports the read of \<open>v[j]\<close> with \<open>j \<ge> v.size()\<close> as \<open>OutOfBounds\<close>.\<close>

function advance_while :: "(Time \<Rightarrow> bool) \<Rightarrow> Time list \<Rightarrow> Size \<Rightarrow> error + Size" where
  "advance_while cond v j =
     (if j \<ge> length v then Inl OutOfBounds
      else if cond (v ! j) then advance_while cond v (j + 1)
      else Inr j)"
  by pat_completeness auto
termination
  by (relation "measure (\<lambda>(cond, v, j). length v - j)") auto

declare advance_while.simps [simp del]

text \<open>Sequencing of two fallible computations.\<close>

definition and_then :: "error + 'a \<Rightarrow> ('a \<Rightarrow> error + 'b) \<Rightarrow> error + 'b" where
  "and_then r f = (case r of Inl e \<Rightarrow> Inl e | Inr x \<Rightarrow> f x)"

subsection \<open>The constructors\<close>

text \<open>\<^verbatim>\<open>EvolutionDescription::EvolutionDescription() : steps_(0) {}\<close>\<close>

definition EvolutionDescription_default :: EvolutionDescription where
  "EvolutionDescription_default =
     \<lparr> rateTimes = [], evolutionTimes = [], steps = 0, relevanceRates = [],
       rateTaus = [], effStopTime = [], firstAliveRate = [] \<rparr>"

text \<open>The checks of the rate times (lines 56-63).\<close>

definition checkRateTimes :: "Time list \<Rightarrow> error + unit" where
  "checkRateTimes rts =
     (if \<not> length rts > 1 then Inl TooFewRateTimes
      else if \<not> rts ! 0 \<ge> 0 then Inl NegativeFirstRateTime
      else for_loop [1..<length rts]
             (\<lambda>i u. if rts ! i > rts ! (i - 1) then Inr u else Inl RateTimesNotIncreasing) ())"

text \<open>The checks of the evolution times (lines 69-75); \<open>ets\<close> is the member
  \<^verbatim>\<open>evolutionTimes_\<close>, after defaulting.\<close>

definition checkEvolutionTimes :: "Time list \<Rightarrow> Time list \<Rightarrow> error + unit" where
  "checkEvolutionTimes rts ets =
     (if \<not> length ets > 0 then Inl NoEvolutionTimes
      else case for_loop [1..<length ets]
             (\<lambda>i u. if ets ! i > ets ! (i - 1) then Inr u else Inl EvolutionTimesNotIncreasing) ()
        of Inl e \<Rightarrow> Inl e
         | Inr u \<Rightarrow> if \<not> last rts \<ge> last ets then Inl EvolutionPastLastRate else Inr ())"

text \<open>The relevance rates (lines 94-100).\<close>

definition setupRelevanceRates ::
    "Time list \<Rightarrow> Size \<Rightarrow> (Size \<times> Size) list \<Rightarrow> error + (Size \<times> Size) list" where
  "setupRelevanceRates rts n_steps rrs =
     (if rrs = [] then Inr (replicate n_steps (0, length rts - 1))
      else if \<not> length rrs = n_steps then Inl RelevanceRatesMismatch
      else Inr rrs)"

text \<open>The accrual periods (lines 106-107); the vector starts as \<open>n\<close> zeros and
  every difference is a rounded one.\<close>

definition setupRateTaus :: "Time list \<Rightarrow> Time list" where
  "setupRateTaus rts =
     fold (\<lambda>i taus. taus[i := double_sub (rts ! (i + 1)) (rts ! i)])
          [0..<length rts - 1] (replicate (length rts - 1) 0)"

text \<open>The effective stop times (lines 110-114), a matrix of \<open>steps\<close> rows and
  \<open>rateTimes.size()-1\<close> columns; every entry is assigned, the initial content
  (taken as 0 here) is never read.\<close>

definition setupEffStopTime :: "Time list \<Rightarrow> Time list \<Rightarrow> Time list list" where
  "setupEffStopTime rts ets =
     fold (\<lambda>j m.
             fold (\<lambda>i m. m[j := (m ! j)[i := min (ets ! j) (rts ! i)]])
                  [0..<length rts - 1] m)
          [0..<length ets]
          (replicate (length ets) (replicate (length rts - 1) 0))"

text \<open>The first alive rates (lines 116-123). The state of the loop is
  \<open>(currentEvolutionTime, firstAliveRate, firstAliveRate_)\<close>.\<close>

definition setupFirstAliveRate :: "Time list \<Rightarrow> Time list \<Rightarrow> error + Size list" where
  "setupFirstAliveRate rts ets =
     (case for_loop [0..<length ets]
             (\<lambda>j (currentEvolutionTime, fa, fas).
                case advance_while (\<lambda>t. t \<le> currentEvolutionTime) rts fa of
                  Inl e \<Rightarrow> Inl e
                | Inr fa' \<Rightarrow> Inr (ets ! j, fa', fas[j := fa']))
             (0, 0, replicate (length ets) 0)
      of Inl e \<Rightarrow> Inl e
       | Inr (currentEvolutionTime, fa, fas) \<Rightarrow> Inr fas)"

text \<open>
  The constructor. The member initialisers run before the body: with an empty
  \<^verbatim>\<open>rateTimes\<close>, \<^verbatim>\<open>rateTaus_(rateTimes_.size()-1)\<close> asks for \<open>Size_max\<close> elements,
  which \<^verbatim>\<open>std::vector\<close> refuses with an exception, and the default of the
  evolution times, \<^verbatim>\<open>std::vector<Time>(rateTimes.begin(), rateTimes.end()-1)\<close>,
  steps before the beginning of the vector. No object is built in either case.
\<close>

definition make_EvolutionDescription ::
    "Time list \<Rightarrow> Time list \<Rightarrow> (Size \<times> Size) list \<Rightarrow> error + EvolutionDescription" where
  "make_EvolutionDescription rts ets0 rrs =
     (if rts = [] then Inl (if ets0 = [] then OutOfBounds else LengthError)
      else
        let ets = (if length ets0 > 0 then ets0 else butlast rts) in
        and_then (checkRateTimes rts) (\<lambda>u.
        and_then (checkEvolutionTimes rts ets) (\<lambda>u.
        and_then (setupRelevanceRates rts (length ets) rrs) (\<lambda>rrs'.
        and_then (setupFirstAliveRate rts ets) (\<lambda>fas.
          Inr \<lparr> rateTimes = rts, evolutionTimes = ets, steps = length ets,
                relevanceRates = rrs', rateTaus = setupRateTaus rts,
                effStopTime = setupEffStopTime rts ets, firstAliveRate = fas \<rparr>)))))"

subsection \<open>Accessors\<close>

definition effectiveStopTime :: "EvolutionDescription \<Rightarrow> Time list list" where
  "effectiveStopTime ev = effStopTime ev"

definition numberOfRates :: "EvolutionDescription \<Rightarrow> Size" where
  "numberOfRates ev = size_minus_one (length (rateTimes ev))"

definition numberOfSteps :: "EvolutionDescription \<Rightarrow> Size" where
  "numberOfSteps ev = length (evolutionTimes ev)"

subsection \<open>The compatibility check\<close>

text \<open>The loop runs to \<^verbatim>\<open>n-1\<close> in unsigned arithmetic: with \<open>n = 0\<close> the bound is
  \<open>Size_max\<close>. Both \<^verbatim>\<open>numeraires[i]\<close> and \<^verbatim>\<open>rateTimes[numeraires[i]]\<close> are
  unchecked reads.\<close>

definition checkCompatibility :: "EvolutionDescription \<Rightarrow> Size list \<Rightarrow> error + unit" where
  "checkCompatibility evolution numeraires =
     (let ets = evolutionTimes evolution; n = length ets in
      if \<not> length numeraires = n then Inl (SizeMismatch (length numeraires) n)
      else
        let rts = rateTimes evolution in
        for_loop [0..<size_minus_one n]
          (\<lambda>i u.
             if i \<ge> length numeraires \<or> numeraires ! i \<ge> length rts \<or> i \<ge> length ets
             then Inl OutOfBounds
             else if \<not> rts ! (numeraires ! i) \<ge> ets ! i
             then Inl (NumeraireExpired i (ets ! i) (numeraires ! i) (rts ! (numeraires ! i)))
             else Inr u) ())"

subsection \<open>Measure classifiers and generators\<close>

text \<open>\<^verbatim>\<open>std::min_element\<close>: \<open>None\<close> is the iterator \<^verbatim>\<open>last\<close>, returned for an
  empty range; otherwise the first smallest element.\<close>

fun min_element :: "Size list \<Rightarrow> Size option" where
  "min_element [] = None"
| "min_element (x # xs) = Some (fold (\<lambda>y smallest. if y < smallest then y else smallest) xs x)"

text \<open>Dereferencing the iterator \<^verbatim>\<open>numeraires.end()\<close> is undefined.\<close>

definition isInTerminalMeasure :: "EvolutionDescription \<Rightarrow> Size list \<Rightarrow> error + bool" where
  "isInTerminalMeasure evolution numeraires =
     (let rts = rateTimes evolution in
      case min_element numeraires of
        None \<Rightarrow> Inl OutOfBounds
      | Some m \<Rightarrow> Inr (m = size_minus_one (length rts)))"

text \<open>The state of the loop is \<open>(j, res)\<close>. The left operand of \<^verbatim>\<open>&&\<close> reads
  \<^verbatim>\<open>numeraires[i]\<close> whatever \<open>res\<close> is.\<close>

definition isInMoneyMarketPlusMeasure ::
    "EvolutionDescription \<Rightarrow> Size list \<Rightarrow> Size \<Rightarrow> error + bool" where
  "isInMoneyMarketPlusMeasure evolution numeraires offset =
     (let rts = rateTimes evolution; maxNumeraire = size_minus_one (length rts) in
      if \<not> offset \<le> maxNumeraire then Inl (OffsetTooLarge offset maxNumeraire)
      else
        let ets = evolutionTimes evolution in
        case for_loop [0..<length ets]
               (\<lambda>i (j, res).
                  case advance_while (\<lambda>t. t < ets ! i) rts j of
                    Inl e \<Rightarrow> Inl e
                  | Inr j' \<Rightarrow>
                      if i \<ge> length numeraires then Inl OutOfBounds
                      else Inr (j', (numeraires ! i = min (j' + offset) maxNumeraire) \<and> res))
               (0, True)
        of Inl e \<Rightarrow> Inl e
         | Inr (j, res) \<Rightarrow> Inr res)"

definition isInMoneyMarketMeasure :: "EvolutionDescription \<Rightarrow> Size list \<Rightarrow> error + bool" where
  "isInMoneyMarketMeasure evolution numeraires =
     isInMoneyMarketPlusMeasure evolution numeraires 0"

definition terminalMeasure :: "EvolutionDescription \<Rightarrow> Size list" where
  "terminalMeasure evolution =
     replicate (length (evolutionTimes evolution))
               (size_minus_one (length (rateTimes evolution)))"

text \<open>The state of the loop is \<open>(j, numeraires)\<close>; the vector starts as \<open>n\<close> zeros.\<close>

definition moneyMarketPlusMeasure :: "EvolutionDescription \<Rightarrow> Size \<Rightarrow> error + Size list" where
  "moneyMarketPlusMeasure ev offset =
     (let rts = rateTimes ev; maxNumeraire = size_minus_one (length rts) in
      if \<not> offset \<le> maxNumeraire then Inl (OffsetTooLarge offset maxNumeraire)
      else
        let ets = evolutionTimes ev; n = length ets in
        case for_loop [0..<n]
               (\<lambda>i (j, numeraires).
                  case advance_while (\<lambda>t. t < ets ! i) rts j of
                    Inl e \<Rightarrow> Inl e
                  | Inr j' \<Rightarrow> Inr (j', numeraires[i := min (j' + offset) maxNumeraire]))
               (0, replicate n 0)
        of Inl e \<Rightarrow> Inl e
         | Inr (j, numeraires) \<Rightarrow> Inr numeraires)"

definition moneyMarketMeasure :: "EvolutionDescription \<Rightarrow> error + Size list" where
  "moneyMarketMeasure evol = moneyMarketPlusMeasure evol 0"

subsection \<open>The specification's vocabulary\<close>

text \<open>The preconditions of the constructor, as section 4.1 of the specification
  lists them; the evolution times are the ones after defaulting.\<close>

definition preconditions :: "Time list \<Rightarrow> Time list \<Rightarrow> (Size \<times> Size) list \<Rightarrow> bool" where
  "preconditions rts ets0 rrs =
     (let ets = (if ets0 = [] then butlast rts else ets0) in
      length rts > 1 \<and> rts ! 0 \<ge> 0 \<and> sorted_wrt (<) rts \<and>
      ets \<noteq> [] \<and> sorted_wrt (<) ets \<and> last rts \<ge> last ets \<and>
      (rrs \<noteq> [] \<longrightarrow> length rrs = length ets))"

text \<open>The time at which step \<open>j\<close> starts: \<open>evolutionTimes[j-1]\<close>, and 0 for the
  first step.\<close>

definition step_start :: "Time list \<Rightarrow> nat \<Rightarrow> Time" where
  "step_start ets j = (if j = 0 then 0 else ets ! (j - 1))"

text \<open>\<open>i\<close> is the smallest index of \<open>ts\<close> at which \<open>P\<close> holds.\<close>

definition smallest_index :: "(Time \<Rightarrow> bool) \<Rightarrow> Time list \<Rightarrow> nat \<Rightarrow> bool" where
  "smallest_index P ts i = (i < length ts \<and> P (ts ! i) \<and> (\<forall>k\<in>{0..<i}. \<not> P (ts ! k)))"

text \<open>The scenario of the specification: rate times 0, 1, 2, 3 and default
  evolution times.\<close>

definition scenario :: EvolutionDescription where
  "scenario =
     \<lparr> rateTimes = [0, 1, 2, 3], evolutionTimes = [0, 1, 2], steps = 3,
       relevanceRates = [(0, 3), (0, 3), (0, 3)], rateTaus = [1, 1, 1],
       effStopTime = [[0, 0, 0], [0, 1, 1], [0, 1, 2]], firstAliveRate = [1, 1, 2] \<rparr>"

section \<open>Properties of the loops\<close>

subsection \<open>Loops\<close>

lemma for_loop_append:
  "for_loop (xs @ ys) body s =
     (case for_loop xs body s of Inl e \<Rightarrow> Inl e | Inr s' \<Rightarrow> for_loop ys body s')"
  by (induction xs arbitrary: s) (auto split: sum.splits)

lemma for_loop_check:
  "for_loop xs (\<lambda>i u. if P i then Inr u else Inl e) u =
     (if \<forall>i\<in>set xs. P i then Inr u else Inl e)"
  by (induction xs) auto

lemma for_loop_invariant:
  assumes init: "I 0 s0"
    and step: "\<And>i s. i < n \<Longrightarrow> I i s \<Longrightarrow> \<exists>s'. body i s = Inr s' \<and> I (Suc i) s'"
  shows "\<exists>s'. for_loop [0..<n] body s0 = Inr s' \<and> I n s'"
  using step
proof (induction n)
  case 0
  show ?case using init by simp
next
  case (Suc n)
  have "\<exists>s'. for_loop [0..<n] body s0 = Inr s' \<and> I n s'"
    by (rule Suc.IH) (simp add: Suc.prems)
  then obtain s1 where s1: "for_loop [0..<n] body s0 = Inr s1" "I n s1"
    by blast
  from Suc.prems [of n s1] s1 obtain s2 where s2: "body n s1 = Inr s2" "I (Suc n) s2"
    by auto
  show ?case
    using s1 s2 by (simp add: for_loop_append)
qed

lemma advance_while_unfold_stop:
  "j < length v \<Longrightarrow> \<not> cond (v ! j) \<Longrightarrow> advance_while cond v j = Inr j"
  by (subst advance_while.simps) simp

lemma advance_while_unfold_step:
  "j < length v \<Longrightarrow> cond (v ! j) \<Longrightarrow> advance_while cond v j = advance_while cond v (Suc j)"
  by (subst advance_while.simps) simp

lemma advance_while_unfold_end:
  "length v \<le> j \<Longrightarrow> advance_while cond v j = Inl OutOfBounds"
  by (subst advance_while.simps) simp

lemma advance_while_InrD:
  "advance_while cond v j = Inr k \<Longrightarrow>
     j \<le> k \<and> k < length v \<and> \<not> cond (v ! k) \<and> (\<forall>i. j \<le> i \<and> i < k \<longrightarrow> cond (v ! i))"
proof (induction cond v j rule: advance_while.induct)
  case (1 cond v j)
  have inb: "j < length v"
    using "1.prems" advance_while_unfold_end [of v j cond] by (cases "j < length v") auto
  show ?case
  proof (cases "cond (v ! j)")
    case False
    with inb "1.prems" have "k = j"
      by (simp add: advance_while_unfold_stop)
    with False inb show ?thesis by auto
  next
    case True
    with inb "1.prems" have "advance_while cond v (j + 1) = Inr k"
      by (simp add: advance_while_unfold_step)
    with "1.IH" inb True
    have ih: "j + 1 \<le> k" "k < length v" "\<not> cond (v ! k)"
        "\<And>i. j + 1 \<le> i \<Longrightarrow> i < k \<Longrightarrow> cond (v ! i)"
      by simp_all
    have "cond (v ! i)" if "j \<le> i" "i < k" for i
    proof (cases "i = j")
      case True
      with \<open>cond (v ! j)\<close> show ?thesis by simp
    next
      case False
      with that have "j + 1 \<le> i" by simp
      then show ?thesis using that ih(4) by simp
    qed
    with ih show ?thesis by simp
  qed
qed

lemma advance_while_InrI:
  "j \<le> k \<Longrightarrow> k < length v \<Longrightarrow> \<not> cond (v ! k) \<Longrightarrow>
     (\<And>i. j \<le> i \<Longrightarrow> i < k \<Longrightarrow> cond (v ! i)) \<Longrightarrow> advance_while cond v j = Inr k"
proof (induction cond v j rule: advance_while.induct)
  case (1 cond v j)
  have inb: "j < length v" using "1.prems"(1,2) by simp
  show ?case
  proof (cases "j = k")
    case True
    then show ?thesis using "1.prems" by (simp add: advance_while_unfold_stop)
  next
    case False
    then have c: "cond (v ! j)" and lt: "j + 1 \<le> k"
      using "1.prems"(1) "1.prems"(4) [of j] by simp_all
    have "advance_while cond v (j + 1) = Inr k"
      using inb c lt "1.prems"(2,3,4) by (intro "1.IH") simp_all
    then show ?thesis using inb c by (simp add: advance_while_unfold_step)
  qed
qed

lemma advance_while_Inr_iff:
  "advance_while cond v j = Inr k \<longleftrightarrow>
     j \<le> k \<and> k < length v \<and> \<not> cond (v ! k) \<and> (\<forall>i. j \<le> i \<and> i < k \<longrightarrow> cond (v ! i))"
  using advance_while_InrD [of cond v j k] advance_while_InrI [of j k v cond] by blast

lemma advance_while_InlD: "advance_while cond v j = Inl e \<Longrightarrow> e = OutOfBounds"
proof (induction cond v j rule: advance_while.induct)
  case (1 cond v j)
  show ?case
  proof (cases "j < length v")
    case False
    with "1.prems" show ?thesis by (simp add: advance_while_unfold_end)
  next
    case inb: True
    show ?thesis
    proof (cases "cond (v ! j)")
      case False
      with inb "1.prems" show ?thesis by (simp add: advance_while_unfold_stop)
    next
      case True
      with inb "1.prems" "1.IH" show ?thesis by (simp add: advance_while_unfold_step)
    qed
  qed
qed

lemma advance_while_takeWhile:
  assumes "j \<le> length (takeWhile cond v)" and "length (takeWhile cond v) < length v"
  shows "advance_while cond v j = Inr (length (takeWhile cond v))"
proof -
  have "\<not> cond (v ! length (takeWhile cond v))"
    using assms(2) by (rule nth_length_takeWhile)
  moreover have "cond (v ! i)" if "i < length (takeWhile cond v)" for i
    using that by (metis nth_mem set_takeWhileD takeWhile_nth)
  ultimately show ?thesis
    using assms by (simp add: advance_while_Inr_iff)
qed

lemma length_takeWhile_mono:
  "(\<And>x. x \<in> set xs \<Longrightarrow> P x \<Longrightarrow> Q x) \<Longrightarrow> length (takeWhile P xs) \<le> length (takeWhile Q xs)"
  by (induction xs) auto

lemma length_takeWhile_less_if:
  "x \<in> set xs \<Longrightarrow> \<not> P x \<Longrightarrow> length (takeWhile P xs) < length xs"
  by (induction xs) auto

lemma fold_update_upt:
  "k \<le> length xs \<Longrightarrow>
     fold (\<lambda>i ys. ys[i := f i]) [0..<k] xs = map f [0..<k] @ drop k xs"
proof (induction k)
  case 0
  then show ?case by simp
next
  case (Suc k)
  then have "fold (\<lambda>i ys. ys[i := f i]) [0..<Suc k] xs = (map f [0..<k] @ drop k xs)[k := f k]"
    by simp
  also have "\<dots> = map f [0..<k] @ (drop k xs)[0 := f k]"
    by (simp add: list_update_append)
  also have "(drop k xs)[0 := f k] = f k # drop (Suc k) xs"
    using Suc.prems by (metis Cons_nth_drop_Suc Suc_le_lessD list_update_code(2))
  finally show ?case by simp
qed

lemma min_element_Min: "xs \<noteq> [] \<Longrightarrow> min_element xs = Some (Min (set xs))"
proof (cases xs)
  case Nil
  then show "xs \<noteq> [] \<Longrightarrow> ?thesis" by simp
next
  case (Cons x ys)
  have "(\<lambda>y smallest. if y < smallest then y else smallest) = (min :: nat \<Rightarrow> nat \<Rightarrow> nat)"
    by (auto simp: fun_eq_iff min_def)
  then show ?thesis
    using Cons Min.set_eq_fold [of x ys] by simp
qed

lemma for_loop_cong:
  "(\<And>i s. i \<in> set xs \<Longrightarrow> body i s = body' i s) \<Longrightarrow> for_loop xs body s = for_loop xs body' s"
  by (induction xs arbitrary: s) (auto split: sum.splits)

lemma for_loop_InlD:
  "for_loop xs body s = Inl e \<Longrightarrow> \<exists>i\<in>set xs. \<exists>s'. body i s' = Inl e"
  by (induction xs arbitrary: s) (auto split: sum.splits)

lemma for_loop_first_failure:
  "for_loop xs (\<lambda>i u. if P i then Inr u else Inl (E i)) u =
     (case find (\<lambda>i. \<not> P i) xs of None \<Rightarrow> Inr u | Some i \<Rightarrow> Inl (E i))"
  by (induction xs) auto

lemma for_loop_fails_at:
  assumes "i0 < n" and "for_loop [0..<i0] body s0 = Inr s1" and "body i0 s1 = Inl e"
  shows "for_loop [0..<n] body s0 = Inl e"
proof -
  have "[0..<n] = [0..<i0] @ i0 # [Suc i0..<n]"
    using assms(1) by (metis less_imp_le_nat upt_add_eq_append upt_conv_Cons le_add_diff_inverse zero_le)
  then show ?thesis
    using assms(2,3) by (simp add: for_loop_append)
qed

subsection \<open>Strictly increasing sequences\<close>

lemma increasing_check_iff:
  "(\<forall>i\<in>set [1..<length ts]. ts ! i > ts ! (i - 1)) \<longleftrightarrow> sorted_wrt (<) (ts :: Time list)"
proof -
  have "(\<forall>i\<in>set [1..<length ts]. ts ! i > ts ! (i - 1)) \<longleftrightarrow>
        (\<forall>i. Suc i < length ts \<longrightarrow> ts ! i < ts ! Suc i)"
  proof (intro iffI allI impI ballI)
    fix i assume a: "\<forall>i\<in>set [1..<length ts]. ts ! i > ts ! (i - 1)" and "Suc i < length ts"
    then have "Suc i \<in> set [1..<length ts]" by simp
    with a have "ts ! (Suc i - 1) < ts ! Suc i" by blast
    then show "ts ! i < ts ! Suc i" by simp
  next
    fix i assume a: "\<forall>i. Suc i < length ts \<longrightarrow> ts ! i < ts ! Suc i" and "i \<in> set [1..<length ts]"
    then have "Suc (i - 1) < length ts" "Suc (i - 1) = i" by simp_all
    with a show "ts ! (i - 1) < ts ! i" by metis
  qed
  also have "\<dots> \<longleftrightarrow> sorted_wrt (<) ts"
    by (rule sorted_wrt_iff_nth_Suc_transp [symmetric]) (simp add: transp_def)
  finally show ?thesis .
qed

lemma increasing_nth_mono:
  "sorted_wrt (<) (ts :: Time list) \<Longrightarrow> i \<le> j \<Longrightarrow> j < length ts \<Longrightarrow> ts ! i \<le> ts ! j"
  by (cases "i = j") (auto simp: sorted_wrt_iff_nth_less less_imp_le)

lemma increasing_nth_less:
  "sorted_wrt (<) (ts :: Time list) \<Longrightarrow> i < j \<Longrightarrow> j < length ts \<Longrightarrow> ts ! i < ts ! j"
  by (simp add: sorted_wrt_iff_nth_less)

subsection \<open>The checks of the constructor\<close>

lemma checkRateTimes_Inr_iff:
  "checkRateTimes rts = Inr u \<longleftrightarrow> length rts > 1 \<and> rts ! 0 \<ge> 0 \<and> sorted_wrt (<) rts"
  unfolding checkRateTimes_def for_loop_check increasing_check_iff by auto

lemma checkEvolutionTimes_Inr_iff:
  "checkEvolutionTimes rts ets = Inr u \<longleftrightarrow>
     ets \<noteq> [] \<and> sorted_wrt (<) ets \<and> last rts \<ge> last ets"
  unfolding checkEvolutionTimes_def for_loop_check increasing_check_iff by auto

lemma setupRelevanceRates_Inr_iff:
  "(\<exists>rrs'. setupRelevanceRates rts n rrs = Inr rrs') \<longleftrightarrow> (rrs \<noteq> [] \<longrightarrow> length rrs = n)"
  by (simp add: setupRelevanceRates_def)

lemma size_minus_one_pos: "0 < n \<Longrightarrow> size_minus_one n = n - 1"
  by (simp add: size_minus_one_def)

subsection \<open>The first alive rates\<close>

lemma last_rate_time_positive:
  assumes "length rts > 1" "rts ! 0 \<ge> 0" "sorted_wrt (<) (rts :: Time list)"
  shows "0 < last rts"
proof -
  have "rts ! 0 < rts ! (length rts - 1)"
    using assms by (intro increasing_nth_less) simp_all
  moreover have "last rts = rts ! (length rts - 1)"
    using assms(1) by (intro last_conv_nth) auto
  ultimately show ?thesis using assms(2) by simp
qed

lemma step_start_less_last:
  assumes "sorted_wrt (<) (ets :: Time list)" "0 < j" "j < length ets"
  shows "step_start ets j < last ets"
proof -
  have "ets ! (j - 1) < ets ! (length ets - 1)"
    using assms by (intro increasing_nth_less) simp_all
  moreover have "last ets = ets ! (length ets - 1)"
    using assms(3) by (intro last_conv_nth) auto
  ultimately show ?thesis using assms(2) by (simp add: step_start_def)
qed

lemma running_time_mono:
  assumes "sorted_wrt (<) (ets :: Time list)" "j \<le> j'" "j' < length ets"
  shows "max 0 (step_start ets j) \<le> max 0 (step_start ets j')"
proof (cases "j = 0")
  case True
  then show ?thesis by (simp add: step_start_def)
next
  case False
  then have "ets ! (j - 1) \<le> ets ! (j' - 1)"
    using assms by (intro increasing_nth_mono) simp_all
  then show ?thesis using False assms(2) by (simp add: step_start_def max_def)
qed

lemma first_alive_in_bounds:
  assumes rt: "length rts > 1" "rts ! 0 \<ge> 0" "sorted_wrt (<) rts"
    and et: "sorted_wrt (<) ets" "last ets \<le> last rts" and j: "j < length ets"
  shows "length (takeWhile (\<lambda>t. t \<le> max 0 (step_start ets j)) rts) < length rts"
proof -
  have "step_start ets j < last rts"
  proof (cases "j = 0")
    case True
    then show ?thesis
      using last_rate_time_positive [OF rt] by (simp add: step_start_def)
  next
    case False
    then show ?thesis
      using step_start_less_last [OF et(1), of j] j et(2) by simp
  qed
  then have "\<not> last rts \<le> max 0 (step_start ets j)"
    using last_rate_time_positive [OF rt] by simp
  moreover have "last rts \<in> set rts"
    using rt(1) by (intro last_in_set) auto
  ultimately show ?thesis
    by (intro length_takeWhile_less_if [of "last rts"])
qed

lemma setupFirstAliveRate_eq:
  assumes rt: "length rts > 1" "rts ! 0 \<ge> 0" "sorted_wrt (<) rts"
    and et: "ets \<noteq> []" "sorted_wrt (<) ets" "last ets \<le> last rts"
  shows "setupFirstAliveRate rts ets =
           Inr (map (\<lambda>j. length (takeWhile (\<lambda>t. t \<le> max 0 (step_start ets j)) rts))
                    [0..<length ets])"
proof -
  define L where "L c = length (takeWhile (\<lambda>t. t \<le> c) rts)" for c :: Time
  define M where "M j = max 0 (step_start ets j)" for j
  define n where "n = length ets"
  define body where "body = (\<lambda>j (currentEvolutionTime, fa, fas).
                case advance_while (\<lambda>t. t \<le> currentEvolutionTime) rts fa of
                  Inl e \<Rightarrow> Inl e
                | Inr fa' \<Rightarrow> Inr (ets ! j, fa', fas[j := fa']))"
  define I where "I j s = (case s of (cur, fa, fas) \<Rightarrow>
      length fas = n \<and> cur = step_start ets j \<and>
      fa = (if j = 0 then 0 else L (M (j - 1))) \<and> (\<forall>j'<j. fas ! j' = L (M j')))"
    for j and s :: "Time \<times> Size \<times> Size list"
  have L_mono: "L c \<le> L c'" if "c \<le> c'" for c c'
    unfolding L_def using that by (intro length_takeWhile_mono) simp
  have L_inb: "L (M j) < length rts" if "j < n" for j
    unfolding L_def M_def using rt et(2,3) that [unfolded n_def] by (rule first_alive_in_bounds)
  have step: "\<exists>s'. body j s = Inr s' \<and> I (Suc j) s'" if "j < n" "I j s" for j s
  proof -
    obtain cur fa fas where s: "s = (cur, fa, fas)" by (cases s)
    from that(2) have len: "length fas = n" and cur: "cur = step_start ets j"
      and fa: "fa = (if j = 0 then 0 else L (M (j - 1)))"
      and old: "\<And>j'. j' < j \<Longrightarrow> fas ! j' = L (M j')"
      by (simp_all add: I_def s)
    have fa_le: "fa \<le> L (M j)"
    proof (cases "j = 0")
      case True
      then show ?thesis by (simp add: fa)
    next
      case False
      have "M (j - 1) \<le> M j"
        unfolding M_def using that(1) by (intro running_time_mono [OF et(2)]) (simp_all add: n_def)
      then show ?thesis using False by (simp add: fa L_mono)
    qed
    have stop: "\<not> rts ! L (M j) \<le> cur"
    proof -
      have "\<not> rts ! L (M j) \<le> M j"
        using L_inb [OF that(1)] unfolding L_def by (rule nth_length_takeWhile)
      then show ?thesis by (simp add: M_def cur)
    qed
    have below: "rts ! i \<le> cur" if i: "fa \<le> i" "i < L (M j)" for i
    proof (cases "0 \<le> cur")
      case True
      have "rts ! i \<le> M j"
        using i(2) unfolding L_def by (metis nth_mem set_takeWhileD takeWhile_nth)
      then show ?thesis using True by (simp add: M_def cur)
    next
      case False
      then have j0: "j \<noteq> 0" by (auto simp: cur step_start_def split: if_splits)
      from False have "M j = 0" by (simp add: M_def cur)
      moreover have "0 \<le> M (j - 1)" by (simp add: M_def)
      ultimately have "L (M j) \<le> fa"
        using j0 by (simp add: fa L_mono)
      with i show ?thesis by simp
    qed
    have adv: "advance_while (\<lambda>t. t \<le> cur) rts fa = Inr (L (M j))"
      using fa_le L_inb [OF that(1)] stop below by (intro advance_while_InrI) simp_all
    have "I (Suc j) (ets ! j, L (M j), fas[j := L (M j)])"
      using len old that(1) by (auto simp: I_def step_start_def nth_list_update less_Suc_eq)
    then show ?thesis
      by (simp add: s body_def adv)
  qed
  have init: "I 0 (0, 0, replicate n 0)"
    by (simp add: I_def step_start_def)
  have "\<exists>s'. for_loop [0..<n] body (0, 0, replicate n 0) = Inr s' \<and> I n s'"
    using init step by (rule for_loop_invariant [where I = I and body = body and n = n])
  then obtain s' where s': "for_loop [0..<n] body (0, 0, replicate n 0) = Inr s'" "I n s'"
    by blast
  obtain cur fa fas where s: "s' = (cur, fa, fas)" by (cases s')
  have "fas = map (\<lambda>j. L (M j)) [0..<n]"
    using s'(2) by (intro nth_equalityI) (simp_all add: I_def s)
  then show ?thesis
    using s'(1) by (simp add: setupFirstAliveRate_def body_def n_def s L_def M_def)
qed

subsection \<open>The cursor of the money-market measures\<close>

lemma cursor_in_bounds:
  assumes "sorted_wrt (<) (ets :: Time list)" "last ets \<le> last rts" "rts \<noteq> []" "i < length ets"
  shows "length (takeWhile (\<lambda>t. t < ets ! i) rts) < length rts"
proof -
  have "ets ! i \<le> ets ! (length ets - 1)"
    using assms(1,4) by (intro increasing_nth_mono) simp_all
  moreover have "last ets = ets ! (length ets - 1)"
    using assms(4) by (intro last_conv_nth) auto
  ultimately have "\<not> last rts < ets ! i"
    using assms(2) by simp
  moreover have "last rts \<in> set rts"
    using assms(3) by simp
  ultimately show ?thesis
    by (intro length_takeWhile_less_if [of "last rts"])
qed

lemma cursor_step:
  assumes "sorted_wrt (<) (ets :: Time list)" "last ets \<le> last rts" "rts \<noteq> []" "i < length ets"
  shows "advance_while (\<lambda>t. t < ets ! i) rts
           (if i = 0 then 0 else length (takeWhile (\<lambda>t. t < ets ! (i - 1)) rts)) =
         Inr (length (takeWhile (\<lambda>t. t < ets ! i) rts))"
proof (rule advance_while_takeWhile)
  show "length (takeWhile (\<lambda>t. t < ets ! i) rts) < length rts"
    using assms by (rule cursor_in_bounds)
  show "(if i = 0 then 0 else length (takeWhile (\<lambda>t. t < ets ! (i - 1)) rts))
          \<le> length (takeWhile (\<lambda>t. t < ets ! i) rts)"
  proof (cases "i = 0")
    case True
    then show ?thesis by simp
  next
    case False
    have "ets ! (i - 1) \<le> ets ! i"
      using assms(1,4) by (intro increasing_nth_mono) simp_all
    then have "length (takeWhile (\<lambda>t. t < ets ! (i - 1)) rts)
                 \<le> length (takeWhile (\<lambda>t. t < ets ! i) rts)"
      by (intro length_takeWhile_mono) simp
    then show ?thesis using False by simp
  qed
qed

lemma moneyMarketPlusMeasure_eq:
  assumes ev: "rateTimes ev = rts" "evolutionTimes ev = ets"
    and wf: "sorted_wrt (<) ets" "last ets \<le> last rts" "rts \<noteq> []"
    and off: "offset \<le> length rts - 1"
  shows "moneyMarketPlusMeasure ev offset =
           Inr (map (\<lambda>i. min (length (takeWhile (\<lambda>t. t < ets ! i) rts) + offset) (length rts - 1))
                    [0..<length ets])"
proof -
  define C where "C i = length (takeWhile (\<lambda>t. t < ets ! i) rts)" for i
  define n where "n = length ets"
  define maxN where "maxN = size_minus_one (length rts)"
  have sm: "maxN = length rts - 1"
    using wf(3) by (simp add: size_minus_one_pos maxN_def)
  define body where "body = (\<lambda>i (j, numeraires).
                  case advance_while (\<lambda>t. t < ets ! i) rts j of
                    Inl e \<Rightarrow> Inl e
                  | Inr j' \<Rightarrow> Inr (j', numeraires[i := min (j' + offset) maxN]))"
  define I where "I i s = (case s of (j, nums) \<Rightarrow>
      length nums = n \<and> j = (if i = 0 then 0 else C (i - 1)) \<and>
      (\<forall>i'<i. nums ! i' = min (C i' + offset) maxN))"
    for i and s :: "Size \<times> Size list"
  have step: "\<exists>s'. body i s = Inr s' \<and> I (Suc i) s'" if "i < n" "I i s" for i s
  proof -
    obtain j nums where s: "s = (j, nums)" by (cases s)
    from that(2) have len: "length nums = n" and j: "j = (if i = 0 then 0 else C (i - 1))"
      and old: "\<And>i'. i' < i \<Longrightarrow> nums ! i' = min (C i' + offset) maxN"
      by (simp_all add: I_def s)
    have adv: "advance_while (\<lambda>t. t < ets ! i) rts j = Inr (C i)"
      unfolding j C_def using wf that(1) by (intro cursor_step) (simp_all add: n_def)
    have "I (Suc i) (C i, nums[i := min (C i + offset) maxN])"
      using len old that(1) by (auto simp: I_def nth_list_update less_Suc_eq)
    then show ?thesis
      by (simp add: s body_def adv)
  qed
  have init: "I 0 (0, replicate n 0)"
    by (simp add: I_def)
  have "\<exists>s'. for_loop [0..<n] body (0, replicate n 0) = Inr s' \<and> I n s'"
    using init step by (rule for_loop_invariant [where I = I and body = body and n = n])
  then obtain s' where s': "for_loop [0..<n] body (0, replicate n 0) = Inr s'" "I n s'"
    by blast
  obtain j nums where s: "s' = (j, nums)" by (cases s')
  have "nums = map (\<lambda>i. min (C i + offset) maxN) [0..<n]"
    using s'(2) by (intro nth_equalityI) (simp_all add: I_def s)
  moreover have "offset \<le> maxN"
    using off by (simp only: sm)
  ultimately have "moneyMarketPlusMeasure ev offset = Inr (map (\<lambda>i. min (C i + offset) maxN) [0..<n])"
    unfolding moneyMarketPlusMeasure_def ev Let_def maxN_def [symmetric] n_def [symmetric]
      body_def [symmetric]
    using s'(1) by (simp add: s)
  then show ?thesis
    by (simp only: sm C_def n_def)
qed

lemma isInMoneyMarketPlusMeasure_loop:
  assumes wf: "sorted_wrt (<) ets" "last ets \<le> last rts" "rts \<noteq> []"
    and len: "m \<le> length ets" "m \<le> length numeraires"
  shows "for_loop [0..<m]
           (\<lambda>i (j, res).
              case advance_while (\<lambda>t. t < ets ! i) rts j of
                Inl e \<Rightarrow> Inl e
              | Inr j' \<Rightarrow>
                  if i \<ge> length numeraires then Inl OutOfBounds
                  else Inr (j', (numeraires ! i = min (j' + offset) maxN) \<and> res))
           (0, True) =
         Inr (if m = 0 then 0 else length (takeWhile (\<lambda>t. t < ets ! (m - 1)) rts),
              \<forall>i<m. numeraires ! i = min (length (takeWhile (\<lambda>t. t < ets ! i) rts) + offset) maxN)"
proof -
  define C where "C i = length (takeWhile (\<lambda>t. t < ets ! i) rts)" for i
  define body where "body = (\<lambda>i (j, res).
              case advance_while (\<lambda>t. t < ets ! i) rts j of
                Inl e \<Rightarrow> Inl e
              | Inr j' \<Rightarrow>
                  if i \<ge> length numeraires then Inl OutOfBounds
                  else Inr (j', (numeraires ! i = min (j' + offset) maxN) \<and> res))"
  define I where "I i s = (s = (if i = 0 then 0 else C (i - 1),
                               \<forall>i'<i. numeraires ! i' = min (C i' + offset) maxN))"
    for i and s :: "Size \<times> bool"
  have step: "\<exists>s'. body i s = Inr s' \<and> I (Suc i) s'" if "i < m" "I i s" for i s
  proof -
    have adv: "advance_while (\<lambda>t. t < ets ! i) rts (if i = 0 then 0 else C (i - 1)) = Inr (C i)"
      unfolding C_def using wf that(1) len(1) by (intro cursor_step) simp_all
    have "i < length numeraires" using that(1) len(2) by simp
    then show ?thesis
      using that(2) by (auto simp: I_def body_def adv less_Suc_eq)
  qed
  have init: "I 0 (0, True)"
    by (simp add: I_def)
  have "\<exists>s'. for_loop [0..<m] body (0, True) = Inr s' \<and> I m s'"
    using init step by (rule for_loop_invariant [where I = I and body = body and n = m])
  then show ?thesis
    by (simp add: I_def body_def C_def)
qed

lemma isInMoneyMarketPlusMeasure_eq:
  assumes ev: "rateTimes ev = rts" "evolutionTimes ev = ets"
    and wf: "sorted_wrt (<) ets" "last ets \<le> last rts" "rts \<noteq> []"
    and off: "offset \<le> length rts - 1"
    and len: "length ets \<le> length numeraires"
  shows "isInMoneyMarketPlusMeasure ev numeraires offset =
           Inr (\<forall>i<length ets. numeraires ! i =
                  min (length (takeWhile (\<lambda>t. t < ets ! i) rts) + offset) (length rts - 1))"
proof -
  define maxN where "maxN = size_minus_one (length rts)"
  have sm: "maxN = length rts - 1"
    using wf(3) by (simp add: size_minus_one_pos maxN_def)
  have "isInMoneyMarketPlusMeasure ev numeraires offset =
           Inr (\<forall>i<length ets. numeraires ! i =
                  min (length (takeWhile (\<lambda>t. t < ets ! i) rts) + offset) maxN)"
    unfolding isInMoneyMarketPlusMeasure_def ev Let_def maxN_def [symmetric]
    using off isInMoneyMarketPlusMeasure_loop [OF wf order_refl len, of offset maxN]
    by (simp add: sm)
  then show ?thesis
    by (simp only: sm)
qed

lemma isInMoneyMarketPlusMeasure_short:
  assumes ev: "rateTimes ev = rts" "evolutionTimes ev = ets"
    and wf: "sorted_wrt (<) ets" "last ets \<le> last rts" "rts \<noteq> []"
    and off: "offset \<le> length rts - 1"
    and len: "length numeraires < length ets"
  shows "isInMoneyMarketPlusMeasure ev numeraires offset = Inl OutOfBounds"
proof -
  define maxN where "maxN = size_minus_one (length rts)"
  have sm: "maxN = length rts - 1"
    using wf(3) by (simp add: size_minus_one_pos maxN_def)
  define body where "body = (\<lambda>i (j, res).
              case advance_while (\<lambda>t. t < ets ! i) rts j of
                Inl e \<Rightarrow> Inl e
              | Inr j' \<Rightarrow>
                  if i \<ge> length numeraires then Inl OutOfBounds
                  else Inr (j', (numeraires ! i = min (j' + offset) maxN) \<and> res))"
  define m where "m = length numeraires"
  have mn: "m < length ets" using len by (simp add: m_def)
  obtain s1 where s1: "for_loop [0..<m] body (0, True) = Inr s1"
      "fst s1 = (if m = 0 then 0 else length (takeWhile (\<lambda>t. t < ets ! (m - 1)) rts))"
    using isInMoneyMarketPlusMeasure_loop [OF wf, of m numeraires offset maxN] mn
    by (simp add: body_def m_def)
  have "advance_while (\<lambda>t. t < ets ! m) rts (fst s1) =
          Inr (length (takeWhile (\<lambda>t. t < ets ! m) rts))"
    unfolding s1(2) using wf mn by (rule cursor_step)
  then have "body m s1 = Inl OutOfBounds"
    by (cases s1) (simp add: body_def m_def)
  with mn s1(1) have "for_loop [0..<length ets] body (0, True) = Inl OutOfBounds"
    by (rule for_loop_fails_at)
  moreover have "offset \<le> maxN"
    using off by (simp only: sm)
  ultimately show ?thesis
    unfolding isInMoneyMarketPlusMeasure_def ev Let_def maxN_def [symmetric] body_def [symmetric]
    by simp
qed

subsection \<open>Rounding to binary64\<close>

lemma round_half_even_pos: "1 / 2 < y \<Longrightarrow> 1 \<le> round_half_even y"
proof -
  assume y: "1 / 2 < y"
  have f0: "0 \<le> \<lfloor>y\<rfloor>"
    using y by (simp add: le_floor_iff)
  show ?thesis
  proof (cases "1 \<le> y")
    case True
    then have "1 \<le> \<lfloor>y\<rfloor>" by (simp add: le_floor_iff)
    then show ?thesis
      by (simp add: round_half_even_def Let_def)
  next
    case False
    then have "\<lfloor>y\<rfloor> = 0"
      using y by (intro floor_unique) simp_all
    then show ?thesis
      using y by (simp add: round_half_even_def Let_def)
  qed
qed

lemma round_half_even_int: "round_half_even (of_int k) = k"
  by (simp add: round_half_even_def)

lemma unit_up_power: "\<exists>j. unit_up x u = u * 2 ^ j"
proof (induction x u rule: unit_up.induct)
  case (1 x u)
  show ?case
  proof (cases "2 \<le> x")
    case True
    with "1.IH" obtain j where "unit_up (x / 2) (2 * u) = 2 * u * 2 ^ j"
      by blast
    with True have "unit_up x u = u * 2 ^ Suc j"
      by (subst unit_up.simps) simp
    then show ?thesis by blast
  next
    case False
    then have "unit_up x u = u * 2 ^ 0"
      by (subst unit_up.simps) simp
    then show ?thesis by blast
  qed
qed

lemma unit_up_le: "1 \<le> x \<Longrightarrow> 0 < u \<Longrightarrow> unit_up x u \<le> u * x"
proof (induction x u rule: unit_up.induct)
  case (1 x u)
  show ?case
  proof (cases "2 \<le> x")
    case True
    with "1.IH" "1.prems" have "unit_up (x / 2) (2 * u) \<le> 2 * u * (x / 2)"
      by simp
    with True show ?thesis
      by (subst unit_up.simps) simp
  next
    case False
    then have "unit_up x u = u"
      by (subst unit_up.simps) simp
    then show ?thesis
      using "1.prems" by simp
  qed
qed

lemma unit_down_power: "\<exists>j\<le>n. unit_down n x u = u / 2 ^ j"
proof (induction n arbitrary: x u)
  case 0
  then show ?case by simp
next
  case (Suc n)
  show ?case
  proof (cases "x < 1")
    case True
    from Suc [of "2 * x" "u / 2"] obtain j where "j \<le> n" "unit_down n (2 * x) (u / 2) = u / 2 / 2 ^ j"
      by blast
    with True have "Suc j \<le> Suc n" "unit_down (Suc n) x u = u / 2 ^ Suc j"
      by simp_all
    then show ?thesis by blast
  next
    case False
    then have "unit_down (Suc n) x u = u / 2 ^ 0"
      by simp
    then show ?thesis by blast
  qed
qed

lemma unit_down_le:
  "0 < u \<Longrightarrow> unit_down n x u \<le> u * x \<or> unit_down n x u = u / 2 ^ n"
proof (induction n arbitrary: x u)
  case 0
  then show ?case by simp
next
  case (Suc n)
  show ?case
  proof (cases "x < 1")
    case True
    from Suc.IH [of "u / 2" "2 * x"] Suc.prems
    have "unit_down n (2 * x) (u / 2) \<le> u / 2 * (2 * x) \<or>
          unit_down n (2 * x) (u / 2) = u / 2 / 2 ^ n"
      by simp
    with True show ?thesis by simp
  next
    case False
    then have "u \<le> u * x"
      using Suc.prems by simp
    with False show ?thesis by simp
  qed
qed

text \<open>The unit in the last place is a power of two, and at least \<open>2^-1074\<close>.\<close>

lemma ulp_grid: "\<exists>j. ulp x = 2 ^ j / 2 ^ 1074"
proof (cases "1 \<le> \<bar>x\<bar>")
  case True
  obtain j where "unit_up \<bar>x\<bar> 1 = 2 ^ j"
    using unit_up_power [of "\<bar>x\<bar>" 1] by auto
  with True have "ulp x = 2 ^ (j + 1022) / 2 ^ 1074"
    by (simp add: ulp_def binade_unit_def power_add)
  then show ?thesis by blast
next
  case False
  obtain j where j: "j \<le> 1022" "unit_down 1022 \<bar>x\<bar> 1 = 1 / 2 ^ j"
    using unit_down_power [of 1022 "\<bar>x\<bar>" 1] by auto
  have "(2 :: real) ^ 1022 = 2 ^ (1022 - j) * 2 ^ j"
    using j(1) by (simp flip: power_add)
  then have "(1 :: real) / 2 ^ j = 2 ^ (1022 - j) / 2 ^ 1022"
    by (simp add: field_simps)
  with False j(2) have "ulp x = 2 ^ (1022 - j) / 2 ^ 1074"
    by (simp add: ulp_def binade_unit_def)
  then show ?thesis by blast
qed

lemma ulp_pos: "0 < ulp x"
proof -
  obtain j where "ulp x = 2 ^ j / 2 ^ 1074"
    using ulp_grid by blast
  moreover have "(0 :: real) < 2 ^ j / 2 ^ 1074"
    by (intro divide_pos_pos zero_less_power) simp_all
  ultimately show ?thesis by (simp only:)
qed

lemma ulp_small:
  assumes "1 / 2 ^ 1074 \<le> x"
  shows "ulp x < 2 * x"
proof -
  have x: "0 < x"
    using assms by (rule less_le_trans [rotated]) simp
  show ?thesis
  proof (cases "1 \<le> x")
    case True
    then have "unit_up x 1 \<le> x"
      using unit_up_le [of x 1] by simp
    moreover have "x / 2 ^ 52 \<le> x"
      using x by (simp add: field_simps)
    ultimately have "ulp x \<le> x"
      using True x by (simp add: ulp_def binade_unit_def field_simps)
    with x show ?thesis by simp
  next
    case False
    from unit_down_le [of 1 1022 x]
    consider "unit_down 1022 x 1 \<le> x" | "unit_down 1022 x 1 = 1 / 2 ^ 1022"
      by auto
    then show ?thesis
    proof cases
      case 1
      moreover have "x / 2 ^ 52 \<le> x"
        using x by (simp add: field_simps)
      ultimately have "ulp x \<le> x"
        using False x by (simp add: ulp_def binade_unit_def field_simps)
      with x show ?thesis by simp
    next
      case 2
      have "(2 :: real) ^ 1074 = 2 ^ 1022 * 2 ^ 52"
        by (simp flip: power_add)
      with 2 False x have "ulp x = 1 / 2 ^ 1074"
        by (simp add: ulp_def binade_unit_def)
      with assms x show ?thesis by simp
    qed
  qed
qed

text \<open>A real of at least \<open>2^-1074\<close> is not rounded to 0.\<close>

lemma round_double_pos:
  assumes "1 / 2 ^ 1074 \<le> x"
  shows "0 < round_double x"
proof -
  have "1 / 2 < x / ulp x"
    using ulp_small [OF assms] ulp_pos [of x] by (simp add: field_simps)
  then have "1 \<le> round_half_even (x / ulp x)"
    by (rule round_half_even_pos)
  then have "0 < (of_int (round_half_even (x / ulp x)) :: real)"
    by simp
  then show ?thesis
    using ulp_pos [of x] by (simp add: round_double_def)
qed

text \<open>Every double is a multiple of \<open>2^-1074\<close>.\<close>

lemma is_double_grid:
  assumes "is_double t"
  shows "\<exists>k :: int. t = of_int k / 2 ^ 1074"
proof -
  obtain j where "ulp t = 2 ^ j / 2 ^ 1074"
    using ulp_grid by blast
  then have "round_double t = of_int (round_half_even (t / ulp t) * 2 ^ j) / 2 ^ 1074"
    by (simp add: round_double_def)
  then show ?thesis
    using assms unfolding is_double_def by metis
qed

text \<open>The difference of two doubles \<open>a < b\<close> is rounded to a positive double:
  the doubles near 0 are evenly spaced (gradual underflow).\<close>

lemma double_sub_pos:
  assumes "is_double a" "is_double b" "a < b"
  shows "0 < double_sub b a"
proof -
  obtain ka kb :: int where k: "a = of_int ka / 2 ^ 1074" "b = of_int kb / 2 ^ 1074"
    using assms(1,2) is_double_grid by blast
  with assms(3) have "(of_int ka :: real) < of_int kb"
    by (simp add: divide_less_cancel)
  then have "ka + 1 \<le> kb"
    by simp
  then have "(of_int ka :: real) + 1 \<le> of_int kb"
    by (metis of_int_1 of_int_add of_int_le_iff)
  then have "1 / 2 ^ 1074 \<le> b - a"
    by (simp add: k field_simps)
  then show ?thesis
    unfolding double_sub_def by (rule round_double_pos)
qed

text \<open>Two differences that are not exact: the doubles nearest to 0.7 and 0.1,
  whose difference needs 55 binary places and is rounded upwards, and
  \<open>2^53 - 1/2\<close>, a tie that is rounded to the even neighbour \<open>2^53\<close>.\<close>

lemma double_sub_rounds_up:
  "is_double (3152519739159347 / 2 ^ 52) \<and> is_double (3602879701896397 / 2 ^ 55) \<and>
   double_sub (3152519739159347 / 2 ^ 52) (3602879701896397 / 2 ^ 55) =
     5404319552844595 / 2 ^ 53 \<and>
   (3152519739159347 / 2 ^ 52 - 3602879701896397 / 2 ^ 55 :: real) =
     21617278211378379 / 2 ^ 55"
  by code_simp

lemma double_sub_tie_to_even: "double_sub (2 ^ 53) (1 / 2) = 2 ^ 53"
  by code_simp

subsection \<open>The derived fields\<close>

lemma setupRateTaus_eq:
  "setupRateTaus rts = map (\<lambda>i. double_sub (rts ! (i + 1)) (rts ! i)) [0..<length rts - 1]"
  unfolding setupRateTaus_def by (subst fold_update_upt) simp_all

lemma fold_update_row:
  "j < length m \<Longrightarrow>
     fold (\<lambda>i m. m[j := (m ! j)[i := g i]]) xs m = m[j := fold (\<lambda>i row. row[i := g i]) xs (m ! j)]"
  by (induction xs arbitrary: m) simp_all

lemma fold_rows_upt:
  assumes "k \<le> length m"
    and "\<And>j m'. j < k \<Longrightarrow> length m' = length m \<Longrightarrow> m' ! j = m ! j \<Longrightarrow> body j m' = m'[j := f j]"
  shows "fold body [0..<k] m = map f [0..<k] @ drop k m"
  using assms
proof (induction k)
  case 0
  then show ?case by simp
next
  case (Suc k)
  define m' where "m' = map f [0..<k] @ drop k m"
  have ih: "fold body [0..<k] m = m'"
    unfolding m'_def using Suc.prems by (intro Suc.IH) simp_all
  have "length m' = length m" "m' ! k = m ! k"
    using Suc.prems(1) by (simp_all add: m'_def nth_append)
  then have "body k m' = m'[k := f k]"
    by (intro Suc.prems(2)) simp_all
  also have "\<dots> = map f [0..<k] @ (drop k m)[0 := f k]"
    by (simp add: m'_def list_update_append)
  also have "(drop k m)[0 := f k] = f k # drop (Suc k) m"
    using Suc.prems(1) by (metis Cons_nth_drop_Suc Suc_le_lessD list_update_code(2))
  finally show ?case by (simp add: ih)
qed

lemma setupEffStopTime_eq:
  "setupEffStopTime rts ets =
     map (\<lambda>j. map (\<lambda>i. min (ets ! j) (rts ! i)) [0..<length rts - 1]) [0..<length ets]"
proof -
  define m0 :: "Time list list" where "m0 = replicate (length ets) (replicate (length rts - 1) 0)"
  have "fold (\<lambda>j m. fold (\<lambda>i m. m[j := (m ! j)[i := min (ets ! j) (rts ! i)]])
                  [0..<length rts - 1] m) [0..<length ets] m0 =
        map (\<lambda>j. map (\<lambda>i. min (ets ! j) (rts ! i)) [0..<length rts - 1]) [0..<length ets]
          @ drop (length ets) m0"
  proof (rule fold_rows_upt)
    show "length ets \<le> length m0" by (simp add: m0_def)
    fix j m' assume j: "j < length ets" and m': "length m' = length m0" "m' ! j = m0 ! j"
    then have row: "m' ! j = replicate (length rts - 1) 0" and jm: "j < length m'"
      by (simp_all add: m0_def)
    show "fold (\<lambda>i m. m[j := (m ! j)[i := min (ets ! j) (rts ! i)]]) [0..<length rts - 1] m' =
          m'[j := map (\<lambda>i. min (ets ! j) (rts ! i)) [0..<length rts - 1]]"
      unfolding fold_update_row [OF jm] row by (subst fold_update_upt) simp_all
  qed
  then show ?thesis
    by (simp add: setupEffStopTime_def m0_def)
qed

subsection \<open>The constructor as a whole\<close>

lemma make_EvolutionDescription_valid:
  assumes "preconditions rts ets0 rrs"
  shows "make_EvolutionDescription rts ets0 rrs =
     Inr \<lparr> rateTimes = rts,
           evolutionTimes = (if ets0 = [] then butlast rts else ets0),
           steps = length (if ets0 = [] then butlast rts else ets0),
           relevanceRates =
             (if rrs = []
              then replicate (length (if ets0 = [] then butlast rts else ets0)) (0, length rts - 1)
              else rrs),
           rateTaus = setupRateTaus rts,
           effStopTime = setupEffStopTime rts (if ets0 = [] then butlast rts else ets0),
           firstAliveRate =
             map (\<lambda>j. length (takeWhile
                    (\<lambda>t. t \<le> max 0 (step_start (if ets0 = [] then butlast rts else ets0) j)) rts))
                 [0..<length (if ets0 = [] then butlast rts else ets0)] \<rparr>"
proof -
  define ets where "ets = (if ets0 = [] then butlast rts else ets0)"
  from assms have rt: "length rts > 1" "rts ! 0 \<ge> 0" "sorted_wrt (<) rts"
    and et: "ets \<noteq> []" "sorted_wrt (<) ets" "last ets \<le> last rts"
    and rr: "rrs \<noteq> [] \<longrightarrow> length rrs = length ets"
    unfolding preconditions_def Let_def ets_def by blast+
  have "rts \<noteq> []" using rt(1) by auto
  moreover have "(if length ets0 > 0 then ets0 else butlast rts) = ets"
    by (simp add: ets_def)
  moreover have "checkRateTimes rts = Inr ()"
    using rt by (simp add: checkRateTimes_Inr_iff)
  moreover have "checkEvolutionTimes rts ets = Inr ()"
    using et by (simp add: checkEvolutionTimes_Inr_iff)
  moreover have "setupRelevanceRates rts (length ets) rrs =
      Inr (if rrs = [] then replicate (length ets) (0, length rts - 1) else rrs)"
    using rr by (simp add: setupRelevanceRates_def)
  moreover note setupFirstAliveRate_eq [OF rt et]
  ultimately show ?thesis
    unfolding make_EvolutionDescription_def ets_def [symmetric]
    by (simp add: and_then_def)
qed

lemma make_EvolutionDescription_invalid:
  assumes "\<not> preconditions rts ets0 rrs"
  shows "\<exists>e. make_EvolutionDescription rts ets0 rrs = Inl e"
proof (cases "rts = []")
  case True
  then show ?thesis by (simp add: make_EvolutionDescription_def)
next
  case False
  define ets where "ets = (if ets0 = [] then butlast rts else ets0)"
  have ets: "(if length ets0 > 0 then ets0 else butlast rts) = ets"
    by (simp add: ets_def)
  have "\<not> (checkRateTimes rts = Inr () \<and> checkEvolutionTimes rts ets = Inr () \<and>
           (\<exists>rrs'. setupRelevanceRates rts (length ets) rrs = Inr rrs'))"
    using assms
    unfolding checkRateTimes_Inr_iff checkEvolutionTimes_Inr_iff setupRelevanceRates_Inr_iff
      preconditions_def Let_def ets_def by blast
  then consider e where "checkRateTimes rts = Inl e"
    | e where "checkRateTimes rts = Inr ()" "checkEvolutionTimes rts ets = Inl e"
    | e where "checkRateTimes rts = Inr ()" "checkEvolutionTimes rts ets = Inr ()"
        "setupRelevanceRates rts (length ets) rrs = Inl e"
    by (cases "checkRateTimes rts"; cases "checkEvolutionTimes rts ets";
        cases "setupRelevanceRates rts (length ets) rrs") auto
  then show ?thesis
    unfolding make_EvolutionDescription_def ets Let_def
    using False by cases (simp_all add: and_then_def)
qed

lemma make_EvolutionDescription_InrD:
  assumes "make_EvolutionDescription rts ets0 rrs = Inr ev"
  shows "preconditions rts ets0 rrs"
    and "rateTimes ev = rts"
    and "evolutionTimes ev = (if ets0 = [] then butlast rts else ets0)"
    and "steps ev = length (evolutionTimes ev)"
    and "rateTaus ev = setupRateTaus rts"
    and "effStopTime ev = setupEffStopTime rts (evolutionTimes ev)"
    and "firstAliveRate ev =
           map (\<lambda>j. length (takeWhile (\<lambda>t. t \<le> max 0 (step_start (evolutionTimes ev) j)) rts))
               [0..<length (evolutionTimes ev)]"
    and "setupFirstAliveRate rts (evolutionTimes ev) = Inr (firstAliveRate ev)"
proof -
  show pre: "preconditions rts ets0 rrs"
    using assms make_EvolutionDescription_invalid [of rts ets0 rrs] by auto
  note ev = make_EvolutionDescription_valid [OF pre, unfolded assms, simplified]
  show "rateTimes ev = rts"
    and ets: "evolutionTimes ev = (if ets0 = [] then butlast rts else ets0)"
    and "steps ev = length (evolutionTimes ev)"
    and "rateTaus ev = setupRateTaus rts"
    and "effStopTime ev = setupEffStopTime rts (evolutionTimes ev)"
    and fa: "firstAliveRate ev =
           map (\<lambda>j. length (takeWhile (\<lambda>t. t \<le> max 0 (step_start (evolutionTimes ev) j)) rts))
               [0..<length (evolutionTimes ev)]"
    by (simp_all add: ev)
  from pre have "length rts > 1" "rts ! 0 \<ge> 0" "sorted_wrt (<) rts"
    "evolutionTimes ev \<noteq> []" "sorted_wrt (<) (evolutionTimes ev)"
    "last (evolutionTimes ev) \<le> last rts"
    unfolding preconditions_def Let_def ets by blast+
  then show "setupFirstAliveRate rts (evolutionTimes ev) = Inr (firstAliveRate ev)"
    unfolding fa by (rule setupFirstAliveRate_eq)
qed

lemma preconditionsD:
  assumes "preconditions rts ets0 rrs" and "ets = (if ets0 = [] then butlast rts else ets0)"
  shows "length rts > 1" "rts ! 0 \<ge> 0" "sorted_wrt (<) rts" "rts \<noteq> []"
    "ets \<noteq> []" "sorted_wrt (<) ets" "last ets \<le> last rts"
  using assms unfolding preconditions_def Let_def by auto

lemma numberOfRates_made:
  assumes "make_EvolutionDescription rts ets0 rrs = Inr ev"
  shows "numberOfRates ev = length (rateTimes ev) - 1" "0 < numberOfRates ev"
  using make_EvolutionDescription_InrD(1,2) [OF assms]
    preconditionsD(1) [of rts ets0 rrs, OF _ refl]
  by (auto simp: numberOfRates_def size_minus_one_def)

subsection \<open>Errors of the measure functions\<close>

lemma moneyMarketPlusMeasure_InlD:
  assumes "moneyMarketPlusMeasure ev offset = Inl e"
  shows "(e = OffsetTooLarge offset (size_minus_one (length (rateTimes ev))) \<and>
          size_minus_one (length (rateTimes ev)) < offset) \<or>
         (e = OutOfBounds \<and> offset \<le> size_minus_one (length (rateTimes ev)))"
proof (cases "offset \<le> size_minus_one (length (rateTimes ev))")
  case False
  with assms show ?thesis
    by (auto simp: moneyMarketPlusMeasure_def Let_def)
next
  case True
  define body where "body = (\<lambda>i (j, numeraires).
      case advance_while (\<lambda>t. t < evolutionTimes ev ! i) (rateTimes ev) j of
        Inl e \<Rightarrow> Inl e
      | Inr j' \<Rightarrow> Inr (j', numeraires[i := min (j' + offset) (size_minus_one (length (rateTimes ev)))]))"
  from assms True have "for_loop [0..<length (evolutionTimes ev)] body
       (0, replicate (length (evolutionTimes ev)) 0) = Inl e"
    by (auto simp: moneyMarketPlusMeasure_def Let_def body_def split: sum.splits)
  then obtain i s' where "body i s' = Inl e"
    by (auto dest!: for_loop_InlD)
  then have "e = OutOfBounds"
    by (cases s') (auto simp: body_def split: sum.splits dest: advance_while_InlD)
  with True show ?thesis by simp
qed

lemma isInMoneyMarketPlusMeasure_InlD:
  assumes "isInMoneyMarketPlusMeasure ev numeraires offset = Inl e"
  shows "(e = OffsetTooLarge offset (size_minus_one (length (rateTimes ev))) \<and>
          size_minus_one (length (rateTimes ev)) < offset) \<or>
         (e = OutOfBounds \<and> offset \<le> size_minus_one (length (rateTimes ev)))"
proof (cases "offset \<le> size_minus_one (length (rateTimes ev))")
  case False
  with assms show ?thesis
    by (auto simp: isInMoneyMarketPlusMeasure_def Let_def)
next
  case True
  define body where "body = (\<lambda>i (j, res).
      case advance_while (\<lambda>t. t < evolutionTimes ev ! i) (rateTimes ev) j of
        Inl e \<Rightarrow> Inl e
      | Inr j' \<Rightarrow>
          if i \<ge> length numeraires then Inl OutOfBounds
          else Inr (j', (numeraires ! i = min (j' + offset) (size_minus_one (length (rateTimes ev)))) \<and> res))"
  from assms True have "for_loop [0..<length (evolutionTimes ev)] body (0, True) = Inl e"
    by (auto simp: isInMoneyMarketPlusMeasure_def Let_def body_def split: sum.splits)
  then obtain i s' where "body i s' = Inl e"
    by (auto dest!: for_loop_InlD)
  then have "e = OutOfBounds"
    by (cases s') (auto simp: body_def split: sum.splits if_splits dest: advance_while_InlD)
  with True show ?thesis by simp
qed

lemma smallest_index_takeWhile:
  assumes "length (takeWhile (\<lambda>t. t < c) ts) < length ts"
  shows "smallest_index (\<lambda>t. t \<ge> c) ts (length (takeWhile (\<lambda>t. t < (c :: Time)) ts))"
proof -
  have "\<not> ts ! length (takeWhile (\<lambda>t. t < c) ts) < c"
    using assms by (rule nth_length_takeWhile)
  moreover have "ts ! k < c" if "k < length (takeWhile (\<lambda>t. t < c) ts)" for k
    using that by (metis nth_mem set_takeWhileD takeWhile_nth)
  ultimately show ?thesis
    using assms by (auto simp: smallest_index_def not_le)
qed

subsection \<open>The compatibility check\<close>

lemma checkCompatibility_size_mismatch:
  "length numeraires \<noteq> length (evolutionTimes ev) \<Longrightarrow>
     checkCompatibility ev numeraires =
       Inl (SizeMismatch (length numeraires) (length (evolutionTimes ev)))"
  by (simp add: checkCompatibility_def Let_def)

lemma checkCompatibility_first_failure:
  assumes len: "length numeraires = length (evolutionTimes ev)" "evolutionTimes ev \<noteq> []"
    and inb: "\<And>i. i + 1 < length (evolutionTimes ev) \<Longrightarrow> numeraires ! i < length (rateTimes ev)"
  shows "checkCompatibility ev numeraires =
     (case find (\<lambda>i. \<not> rateTimes ev ! (numeraires ! i) \<ge> evolutionTimes ev ! i)
                [0..<length (evolutionTimes ev) - 1] of
        None \<Rightarrow> Inr ()
      | Some i \<Rightarrow> Inl (NumeraireExpired i (evolutionTimes ev ! i) (numeraires ! i)
                        (rateTimes ev ! (numeraires ! i))))"
proof -
  define rts where "rts = rateTimes ev"
  define ets where "ets = evolutionTimes ev"
  define n where "n = length ets"
  have n: "size_minus_one n = n - 1" "length numeraires = n"
    using len by (simp_all add: size_minus_one_pos n_def ets_def)
  have "for_loop [0..<n - 1]
          (\<lambda>i u.
             if i \<ge> length numeraires \<or> numeraires ! i \<ge> length rts \<or> i \<ge> length ets
             then Inl OutOfBounds
             else if \<not> rts ! (numeraires ! i) \<ge> ets ! i
             then Inl (NumeraireExpired i (ets ! i) (numeraires ! i) (rts ! (numeraires ! i)))
             else Inr u) () =
        for_loop [0..<n - 1]
          (\<lambda>i u. if rts ! (numeraires ! i) \<ge> ets ! i then Inr u
                 else Inl (NumeraireExpired i (ets ! i) (numeraires ! i) (rts ! (numeraires ! i)))) ()"
  proof (rule for_loop_cong)
    fix i s assume "i \<in> set [0..<n - 1]"
    then have "i + 1 < n" by simp
    then have "i < length numeraires" "i < length ets" "numeraires ! i < length rts"
      using n(2) inb [of i] by (simp_all add: n_def ets_def rts_def)
    then show "(if i \<ge> length numeraires \<or> numeraires ! i \<ge> length rts \<or> i \<ge> length ets
             then Inl OutOfBounds
             else if \<not> rts ! (numeraires ! i) \<ge> ets ! i
             then Inl (NumeraireExpired i (ets ! i) (numeraires ! i) (rts ! (numeraires ! i)))
             else Inr s) =
          (if rts ! (numeraires ! i) \<ge> ets ! i then Inr s
           else Inl (NumeraireExpired i (ets ! i) (numeraires ! i) (rts ! (numeraires ! i))))"
      by simp
  qed
  then show ?thesis
    unfolding checkCompatibility_def Let_def rts_def [symmetric] ets_def [symmetric]
      n_def [symmetric] n for_loop_first_failure
    by simp
qed

subsection \<open>The default-constructed object\<close>

text \<open>The object of the default constructor has no step and no rate time. On it
  \<^verbatim>\<open>n-1\<close> and \<^verbatim>\<open>rateTimes.size()-1\<close> wrap around, and the functions below read
  past the end of an empty vector.\<close>

lemma default_checkCompatibility:
  "checkCompatibility EvolutionDescription_default [] = Inl OutOfBounds"
proof -
  have "[0..<Size_max] = 0 # [Suc 0..<Size_max]"
    by (rule upt_conv_Cons) (simp add: Size_max_def)
  then show ?thesis
    by (simp add: checkCompatibility_def EvolutionDescription_default_def size_minus_one_def)
qed

lemma default_isInTerminalMeasure:
  "isInTerminalMeasure EvolutionDescription_default
     (terminalMeasure EvolutionDescription_default) = Inl OutOfBounds"
  by (simp add: isInTerminalMeasure_def terminalMeasure_def EvolutionDescription_default_def)

lemma default_moneyMarketPlusMeasure:
  "moneyMarketPlusMeasure EvolutionDescription_default offset =
     (if offset \<le> Size_max then Inr [] else Inl (OffsetTooLarge offset Size_max))"
  by (simp add: moneyMarketPlusMeasure_def EvolutionDescription_default_def size_minus_one_def)

section \<open>The claims\<close>

lemma scenario_made: "make_EvolutionDescription [0, 1, 2, 3] [] [] = Inr scenario"
  unfolding scenario_def by code_simp

subsection \<open>C1: the money-market measure of the scenario\<close>

text \<open>
  C1 as the specification states it: for rate times 0, 1, 2, 3 and no evolution
  times given, \<open>moneyMarketMeasure\<close> returns the numeraires 1, 2, 3.
  The code does not: it returns 0, 1, 2.
\<close>

theorem C1_numeraires_1_2_3_refuted:
  "and_then (make_EvolutionDescription [0, 1, 2, 3] [] []) moneyMarketMeasure \<noteq> Inr [1, 2, 3]"
  by code_simp

text \<open>
  C1, amended: for rate times 0, 1, 2, 3 and no evolution times given, the
  evolution times default to 0, 1, 2 and \<open>moneyMarketMeasure\<close> returns the
  numeraires 0, 1, 2: at every step the numeraire is the smallest rate index
  whose rate time is at least the evolution time of the step (the cursor stays on
  a rate time that equals the evolution time).
\<close>

theorem C1_moneyMarketMeasure_scenario:
  "make_EvolutionDescription [0, 1, 2, 3] [] [] = Inr scenario \<and>
   evolutionTimes scenario = [0, 1, 2] \<and>
   moneyMarketMeasure scenario = Inr [0, 1, 2] \<and>
   (\<forall>i<3. smallest_index (\<lambda>t. t \<ge> evolutionTimes scenario ! i) (rateTimes scenario)
              ([0, 1, 2] ! i))"
proof (intro conjI)
  show "make_EvolutionDescription [0, 1, 2, 3] [] [] = Inr scenario"
    by (rule scenario_made)
  show "evolutionTimes scenario = [0, 1, 2]"
    by (simp add: scenario_def)
  show "moneyMarketMeasure scenario = Inr [0, 1, 2]"
    by code_simp
  show "\<forall>i<3. smallest_index (\<lambda>t. t \<ge> evolutionTimes scenario ! i) (rateTimes scenario)
              ([0, 1, 2] ! i)"
  proof (intro allI impI)
    fix i :: nat assume "i < 3"
    then consider "i = 0" | "i = 1" | "i = 2" by linarith
    then show "smallest_index (\<lambda>t. t \<ge> evolutionTimes scenario ! i) (rateTimes scenario)
              ([0, 1, 2] ! i)"
      by cases (simp_all add: smallest_index_def scenario_def numeral_2_eq_2 atLeast0_lessThan_Suc)
  qed
qed

theorem C1_moneyMarketMeasure_scenario_witness:
  "moneyMarketMeasure scenario = Inr [0, 1, 2] \<and>
   smallest_index (\<lambda>t. t \<ge> evolutionTimes scenario ! 1) (rateTimes scenario) 1"
proof -
  from C1_moneyMarketMeasure_scenario
  have mm: "moneyMarketMeasure scenario = Inr [0, 1, 2]"
    and all: "\<forall>i<3. smallest_index (\<lambda>t. t \<ge> evolutionTimes scenario ! i) (rateTimes scenario)
              ([0, 1, 2] ! i)"
    by blast+
  from all [rule_format, of 1] mm show ?thesis
    by simp
qed

subsection \<open>C2: the first alive rates\<close>

text \<open>
  C2 as the specification states it: in every constructed evolution description
  \<open>firstAliveRate()[j]\<close> is the smallest rate index \<open>i\<close> with
  \<open>rateTimes[i] > evolutionTimes[j-1]\<close>, with 0 in place of \<open>evolutionTimes[j-1]\<close>
  when \<open>j = 0\<close>. This fails when an evolution time is negative, which the
  constructor accepts: with rate times 0, 1 and evolution times -1, 1 the first
  alive rates are 1, 1, although rate 0 is the smallest index whose rate time
  is after -1.
\<close>

theorem C2_smallest_index_after_previous_step_refuted:
  "and_then (make_EvolutionDescription [0, 1] [-1, 1] [])
     (\<lambda>ev. Inr (rateTimes ev, evolutionTimes ev, firstAliveRate ev)) =
     Inr ([0, 1], [-1, 1], [1, 1]) \<and>
   \<not> smallest_index (\<lambda>t. t > step_start [-1, 1] 1) [0, 1] 1 \<and>
   smallest_index (\<lambda>t. t > step_start [-1, 1] 1) [0, 1] 0"
proof (intro conjI)
  show "and_then (make_EvolutionDescription [0, 1] [-1, 1] [])
     (\<lambda>ev. Inr (rateTimes ev, evolutionTimes ev, firstAliveRate ev)) =
     Inr ([0, 1], [-1, 1], [1, 1])"
    by code_simp
qed (simp_all add: smallest_index_def step_start_def)

text \<open>
  C2, amended: in every constructed evolution description \<open>firstAliveRate()[j]\<close>
  is the smallest rate index \<open>i\<close> with \<open>rateTimes[i] > max(0, evolutionTimes[j-1])\<close>
  (with 0 in place of \<open>evolutionTimes[j-1]\<close> when \<open>j = 0\<close>): the running time of
  the sweep starts at 0 and the cursor never moves back. When the first
  evolution time is not negative this is the smallest rate index \<open>i\<close> with
  \<open>rateTimes[i] > evolutionTimes[j-1]\<close>. The first alive rates do not decrease
  from one step to the next.
\<close>

theorem C2_firstAliveRate:
  assumes "make_EvolutionDescription rts ets0 rrs = Inr ev"
  shows "length (firstAliveRate ev) = numberOfSteps ev \<and>
         (\<forall>j<numberOfSteps ev.
            smallest_index (\<lambda>t. t > max 0 (step_start (evolutionTimes ev) j))
              (rateTimes ev) (firstAliveRate ev ! j)) \<and>
         (0 \<le> evolutionTimes ev ! 0 \<longrightarrow>
            (\<forall>j<numberOfSteps ev.
               smallest_index (\<lambda>t. t > step_start (evolutionTimes ev) j)
                 (rateTimes ev) (firstAliveRate ev ! j))) \<and>
         (\<forall>j j'. j \<le> j' \<and> j' < numberOfSteps ev \<longrightarrow>
            firstAliveRate ev ! j \<le> firstAliveRate ev ! j')"
proof -
  note ev = make_EvolutionDescription_InrD [OF assms]
  define ets where "ets = evolutionTimes ev"
  define L where "L c = length (takeWhile (\<lambda>t. t \<le> c) rts)" for c :: Time
  note pre = preconditionsD [OF ev(1) ev(3), folded ets_def]
  have fa: "firstAliveRate ev ! j = L (max 0 (step_start ets j))" if "j < length ets" for j
    using that by (simp add: ev(7) L_def ets_def)
  have len: "length (firstAliveRate ev) = length ets"
    by (simp add: ev(7) ets_def)
  have inb: "L (max 0 (step_start ets j)) < length rts" if "j < length ets" for j
    unfolding L_def using pre(1,2,3,6,7) that by (rule first_alive_in_bounds)
  have smallest: "smallest_index (\<lambda>t. t > c) rts (L c)" if "L c < length rts" for c
  proof -
    have "\<not> rts ! L c \<le> c"
      using that unfolding L_def by (rule nth_length_takeWhile)
    moreover have "rts ! k \<le> c" if "k < L c" for k
      using that unfolding L_def by (metis nth_mem set_takeWhileD takeWhile_nth)
    ultimately show ?thesis
      using that by (auto simp: smallest_index_def not_less)
  qed
  have nonneg: "0 \<le> step_start ets j" if "0 \<le> ets ! 0" "j < length ets" for j
  proof (cases "j = 0")
    case True
    then show ?thesis by (simp add: step_start_def)
  next
    case False
    have "ets ! 0 \<le> ets ! (j - 1)"
      using that(2) by (intro increasing_nth_mono [OF pre(6)]) simp_all
    then show ?thesis using False that(1) by (simp add: step_start_def)
  qed
  have mono: "L (max 0 (step_start ets j)) \<le> L (max 0 (step_start ets j'))"
    if "j \<le> j'" "j' < length ets" for j j'
    unfolding L_def using running_time_mono [OF pre(6) that]
    by (intro length_takeWhile_mono) simp
  show ?thesis
  proof (intro conjI allI impI)
    show "length (firstAliveRate ev) = numberOfSteps ev"
      by (simp add: len numberOfSteps_def ets_def)
  next
    fix j assume "j < numberOfSteps ev"
    then have j: "j < length ets" by (simp add: numberOfSteps_def ets_def)
    show "smallest_index (\<lambda>t. t > max 0 (step_start (evolutionTimes ev) j))
              (rateTimes ev) (firstAliveRate ev ! j)"
      using smallest [OF inb [OF j]] by (simp add: fa [OF j] ev(2) ets_def)
  next
    fix j assume "0 \<le> evolutionTimes ev ! 0" "j < numberOfSteps ev"
    then have j: "j < length ets" and "0 \<le> ets ! 0" by (simp_all add: numberOfSteps_def ets_def)
    then have "max 0 (step_start ets j) = step_start ets j"
      using nonneg [of j] by simp
    then show "smallest_index (\<lambda>t. t > step_start (evolutionTimes ev) j)
                 (rateTimes ev) (firstAliveRate ev ! j)"
      using smallest [OF inb [OF j]] by (simp add: fa [OF j] ev(2) ets_def)
  next
    fix j j' assume "j \<le> j' \<and> j' < numberOfSteps ev"
    then have jj: "j \<le> j'" "j' < length ets" "j < length ets"
      by (simp_all add: numberOfSteps_def ets_def)
    show "firstAliveRate ev ! j \<le> firstAliveRate ev ! j'"
      using mono [OF jj(1,2)] by (simp add: fa jj)
  qed
qed

theorem C2_firstAliveRate_witness:
  "firstAliveRate scenario = [1, 1, 2] \<and>
   smallest_index (\<lambda>t. t > step_start (evolutionTimes scenario) 2) (rateTimes scenario)
     (firstAliveRate scenario ! 2) \<and>
   firstAliveRate scenario ! 1 \<le> firstAliveRate scenario ! 2"
proof -
  have n: "numberOfSteps scenario = 3" "0 \<le> evolutionTimes scenario ! 0"
    by (simp_all add: numberOfSteps_def scenario_def)
  note c2 = C2_firstAliveRate [OF scenario_made, unfolded n(1)]
  from c2 n(2) have all: "\<forall>j<3. smallest_index (\<lambda>t. t > step_start (evolutionTimes scenario) j)
      (rateTimes scenario) (firstAliveRate scenario ! j)"
    and mono: "\<forall>j j'. j \<le> j' \<and> j' < 3 \<longrightarrow> firstAliveRate scenario ! j \<le> firstAliveRate scenario ! j'"
    by blast+
  from all [rule_format, of 2]
  have "smallest_index (\<lambda>t. t > step_start (evolutionTimes scenario) 2)
      (rateTimes scenario) (firstAliveRate scenario ! 2)"
    by simp
  moreover from mono [rule_format, of 1 2]
  have "firstAliveRate scenario ! 1 \<le> firstAliveRate scenario ! 2"
    by simp
  moreover have "firstAliveRate scenario = [1, 1, 2]"
    by (simp add: scenario_def)
  ultimately show ?thesis by simp
qed

subsection \<open>C3: the compatibility check\<close>

text \<open>
  C3: \<open>checkCompatibility(evolution, numeraires)\<close> fails with a size-mismatch error
  that reports both sizes whenever \<open>numeraires.size() \<noteq> evolution.numberOfSteps()\<close>.
  Otherwise, for an evolution description with at least one step (every
  constructed one) and numeraires that are indices of rate times, it fails with
  an expiry error if and only if some step \<open>i\<close> other than the last has
  \<open>rateTimes[numeraires[i]] < evolutionTimes[i]\<close>; the error reports such a step,
  its evolution time, the numeraire and its rate time. The last step is exempt
  and a rate time equal to the evolution time passes. The function takes its
  arguments by constant reference and returns nothing: the model is a function
  from the two arguments to success or an error, there is no state to change.
\<close>

theorem C3_checkCompatibility:
  "(length numeraires \<noteq> numberOfSteps ev \<longrightarrow>
      checkCompatibility ev numeraires =
        Inl (SizeMismatch (length numeraires) (numberOfSteps ev))) \<and>
   (length numeraires = numberOfSteps ev \<and> 0 < numberOfSteps ev \<and>
    (\<forall>i. i + 1 < numberOfSteps ev \<longrightarrow> numeraires ! i < length (rateTimes ev)) \<longrightarrow>
      ((\<exists>i t n t'. checkCompatibility ev numeraires = Inl (NumeraireExpired i t n t')) \<longleftrightarrow>
       (\<exists>i. i + 1 < numberOfSteps ev \<and>
            rateTimes ev ! (numeraires ! i) < evolutionTimes ev ! i)) \<and>
      ((\<exists>i. i + 1 < numberOfSteps ev \<and>
            rateTimes ev ! (numeraires ! i) < evolutionTimes ev ! i) \<longrightarrow>
       (\<exists>i. i + 1 < numberOfSteps ev \<and>
            rateTimes ev ! (numeraires ! i) < evolutionTimes ev ! i \<and>
            checkCompatibility ev numeraires =
              Inl (NumeraireExpired i (evolutionTimes ev ! i) (numeraires ! i)
                     (rateTimes ev ! (numeraires ! i))))) \<and>
      ((\<forall>i. i + 1 < numberOfSteps ev \<longrightarrow>
            evolutionTimes ev ! i \<le> rateTimes ev ! (numeraires ! i)) \<longrightarrow>
       checkCompatibility ev numeraires = Inr ()))"
proof (intro conjI impI)
  assume "length numeraires \<noteq> numberOfSteps ev"
  then show "checkCompatibility ev numeraires =
        Inl (SizeMismatch (length numeraires) (numberOfSteps ev))"
    by (simp add: numberOfSteps_def checkCompatibility_size_mismatch)
next
  assume a: "length numeraires = numberOfSteps ev \<and> 0 < numberOfSteps ev \<and>
    (\<forall>i. i + 1 < numberOfSteps ev \<longrightarrow> numeraires ! i < length (rateTimes ev))"
  define n where "n = length (evolutionTimes ev)"
  define expired where
    "expired i \<longleftrightarrow> \<not> evolutionTimes ev ! i \<le> rateTimes ev ! (numeraires ! i)" for i
  define err where
    "err i = NumeraireExpired i (evolutionTimes ev ! i) (numeraires ! i)
               (rateTimes ev ! (numeraires ! i))" for i
  have res: "checkCompatibility ev numeraires =
      (case find expired [0..<n - 1] of None \<Rightarrow> Inr () | Some i \<Rightarrow> Inl (err i))"
    unfolding expired_def err_def n_def
    using a by (intro checkCompatibility_first_failure) (auto simp: numberOfSteps_def)
  have none: "checkCompatibility ev numeraires = Inr ()" if "\<forall>i. i + 1 < n \<longrightarrow> \<not> expired i"
  proof -
    have "find expired [0..<n - 1] = None"
      using that by (simp add: find_None_iff)
    then show ?thesis by (simp add: res)
  qed
  have some: "\<exists>i. i + 1 < n \<and> expired i \<and> checkCompatibility ev numeraires = Inl (err i)"
    if "\<exists>i. i + 1 < n \<and> expired i"
  proof -
    from that obtain i0 where "i0 < n - 1" "expired i0"
      by (auto simp: less_diff_conv)
    then have "find expired [0..<n - 1] \<noteq> None"
      by (auto simp: find_None_iff)
    then obtain i where i: "find expired [0..<n - 1] = Some i"
      by blast
    then have "expired i" "i \<in> set [0..<n - 1]"
      by (auto simp: find_Some_iff)
    then show ?thesis
      using i by (intro exI [of _ i]) (simp add: res)
  qed
  show "(\<exists>i t n t'. checkCompatibility ev numeraires = Inl (NumeraireExpired i t n t')) \<longleftrightarrow>
       (\<exists>i. i + 1 < numberOfSteps ev \<and>
            rateTimes ev ! (numeraires ! i) < evolutionTimes ev ! i)"
  proof (cases "\<exists>i. i + 1 < n \<and> expired i")
    case True
    from some [OF True] True show ?thesis
      unfolding err_def expired_def n_def numberOfSteps_def not_le by blast
  next
    case False
    then have "checkCompatibility ev numeraires = Inr ()"
      by (intro none) blast
    with False show ?thesis
      unfolding expired_def n_def numberOfSteps_def not_le by simp
  qed
  show "\<exists>i. i + 1 < numberOfSteps ev \<and>
            rateTimes ev ! (numeraires ! i) < evolutionTimes ev ! i \<and>
            checkCompatibility ev numeraires =
              Inl (NumeraireExpired i (evolutionTimes ev ! i) (numeraires ! i)
                     (rateTimes ev ! (numeraires ! i)))"
    if "\<exists>i. i + 1 < numberOfSteps ev \<and>
            rateTimes ev ! (numeraires ! i) < evolutionTimes ev ! i"
    using some that unfolding err_def expired_def n_def numberOfSteps_def not_le by blast
  show "checkCompatibility ev numeraires = Inr ()"
    if "\<forall>i. i + 1 < numberOfSteps ev \<longrightarrow>
            evolutionTimes ev ! i \<le> rateTimes ev ! (numeraires ! i)"
    using none that unfolding expired_def n_def numberOfSteps_def by blast
qed

theorem C3_checkCompatibility_witness:
  "and_then (make_EvolutionDescription [0, 1, 2] [0, 1] [])
     (\<lambda>ev. checkCompatibility ev [0, 2]) = Inr () \<and>
   and_then (make_EvolutionDescription [0, 1, 2] [0, 1] [])
     (\<lambda>ev. checkCompatibility ev [0]) = Inl (SizeMismatch 1 2) \<and>
   and_then (make_EvolutionDescription [0, 1, 2] [1, 2] [])
     (\<lambda>ev. checkCompatibility ev [0, 2]) = Inl (NumeraireExpired 0 1 0 0)"
proof -
  have i0: "i = 0" if "i + 1 < 2" for i :: nat
    using that by simp
  have "preconditions [0, 1, 2] [0, 1] []"
    by (simp add: preconditions_def)
  then obtain ev where ev: "make_EvolutionDescription [0, 1, 2] [0, 1] [] = Inr ev"
    using make_EvolutionDescription_valid by blast
  note d = make_EvolutionDescription_InrD(2,3) [OF ev]
  have n: "numberOfSteps ev = 2"
    by (simp add: numberOfSteps_def d)
  have pass: "checkCompatibility ev [0, 2] = Inr ()"
    using C3_checkCompatibility [of "[0, 2]" ev, unfolded n]
    by (auto simp: d dest!: i0)
  have mismatch: "checkCompatibility ev [0] = Inl (SizeMismatch 1 2)"
    using C3_checkCompatibility [of "[0]" ev, unfolded n] by simp
  have "preconditions [0, 1, 2] [1, 2] []"
    by (simp add: preconditions_def)
  then obtain ev' where ev': "make_EvolutionDescription [0, 1, 2] [1, 2] [] = Inr ev'"
    using make_EvolutionDescription_valid by blast
  note d' = make_EvolutionDescription_InrD(2,3) [OF ev']
  have n': "numberOfSteps ev' = 2"
    by (simp add: numberOfSteps_def d')
  have late: "\<exists>i. i + 1 < 2 \<and> rateTimes ev' ! ([0, 2] ! i) < evolutionTimes ev' ! i"
    by (intro exI [of _ 0]) (simp add: d')
  have "length [0, 2 :: nat] = 2 \<and> (0 :: nat) < 2 \<and>
      (\<forall>i. i + 1 < 2 \<longrightarrow> [0, 2] ! i < length (rateTimes ev'))"
    by (auto simp: d' dest!: i0)
  with C3_checkCompatibility [of "[0, 2]" ev', unfolded n'] late
  obtain i where "i + 1 < 2" "checkCompatibility ev' [0, 2] =
      Inl (NumeraireExpired i (evolutionTimes ev' ! i) ([0, 2] ! i) (rateTimes ev' ! ([0, 2] ! i)))"
    by blast
  then have expired: "checkCompatibility ev' [0, 2] = Inl (NumeraireExpired 0 1 0 0)"
    using i0 [of i] by (simp add: d')
  show ?thesis
    using pass mismatch expired by (simp add: ev ev' and_then_def)
qed

subsection \<open>C4: the money-market-plus measure is recognised\<close>

text \<open>
  C4: for every constructed evolution description and every offset \<open>k\<close> with
  \<open>k \<le> rateTimes.size()-1\<close>, \<open>moneyMarketPlusMeasure(ev, k)\<close> returns a vector on
  which \<open>isInMoneyMarketPlusMeasure(ev, ., k)\<close> returns true. The vector has one
  entry for every step, and entry \<open>i\<close> is \<open>min(j + k, rateTimes.size()-1)\<close>, where
  \<open>j\<close> is the position of the cursor after it has advanced while
  \<open>rateTimes[j] < evolutionTimes[i]\<close>, that is the smallest rate index whose rate
  time is not before \<open>evolutionTimes[i]\<close>.
\<close>

theorem C4_moneyMarketPlusMeasure_round_trip:
  assumes "make_EvolutionDescription rts ets0 rrs = Inr ev"
    and "k \<le> length (rateTimes ev) - 1"
  shows "\<exists>numeraires.
           moneyMarketPlusMeasure ev k = Inr numeraires \<and>
           length numeraires = numberOfSteps ev \<and>
           (\<forall>i<numberOfSteps ev. \<exists>j.
              smallest_index (\<lambda>t. t \<ge> evolutionTimes ev ! i) (rateTimes ev) j \<and>
              numeraires ! i = min (j + k) (length (rateTimes ev) - 1)) \<and>
           isInMoneyMarketPlusMeasure ev numeraires k = Inr True"
proof -
  note ev = make_EvolutionDescription_InrD [OF assms(1)]
  define ets where "ets = evolutionTimes ev"
  define C where "C i = length (takeWhile (\<lambda>t. t < ets ! i) rts)" for i
  define numeraires where "numeraires = map (\<lambda>i. min (C i + k) (length rts - 1)) [0..<length ets]"
  note pre = preconditionsD [OF ev(1) ev(3), folded ets_def]
  have k: "k \<le> length rts - 1"
    using assms(2) by (simp add: ev(2))
  have gen: "moneyMarketPlusMeasure ev k = Inr numeraires"
    unfolding numeraires_def C_def
    using ev(2) ets_def [symmetric] pre(6,7,4) k by (rule moneyMarketPlusMeasure_eq)
  have "isInMoneyMarketPlusMeasure ev numeraires k =
          Inr (\<forall>i<length ets. numeraires ! i = min (C i + k) (length rts - 1))"
    unfolding C_def
    using ev(2) ets_def [symmetric] pre(6,7,4) k by (rule isInMoneyMarketPlusMeasure_eq) (simp add: numeraires_def)
  then have chk: "isInMoneyMarketPlusMeasure ev numeraires k = Inr True"
    by (simp add: numeraires_def)
  have entry: "\<exists>j. smallest_index (\<lambda>t. t \<ge> ets ! i) rts j \<and>
                 numeraires ! i = min (j + k) (length rts - 1)" if "i < length ets" for i
  proof (intro exI conjI)
    show "smallest_index (\<lambda>t. t \<ge> ets ! i) rts (C i)"
      unfolding C_def using cursor_in_bounds [OF pre(6,7,4) that] by (rule smallest_index_takeWhile)
    show "numeraires ! i = min (C i + k) (length rts - 1)"
      using that by (simp add: numeraires_def)
  qed
  show ?thesis
    using gen chk entry
    by (intro exI [of _ numeraires]) (simp add: numberOfSteps_def ev(2) numeraires_def flip: ets_def)
qed

theorem C4_moneyMarketPlusMeasure_round_trip_witness:
  "moneyMarketPlusMeasure scenario 1 = Inr [1, 2, 3] \<and>
   isInMoneyMarketPlusMeasure scenario [1, 2, 3] 1 = Inr True"
proof -
  have "(1 :: nat) \<le> length (rateTimes scenario) - 1"
    by (simp add: scenario_def)
  from C4_moneyMarketPlusMeasure_round_trip [OF scenario_made this]
  obtain numeraires where "moneyMarketPlusMeasure scenario 1 = Inr numeraires"
    "isInMoneyMarketPlusMeasure scenario numeraires 1 = Inr True"
    by blast
  moreover have "moneyMarketPlusMeasure scenario 1 = Inr [1, 2, 3]"
    by code_simp
  ultimately show ?thesis by simp
qed

subsection \<open>C5: when the construction fails\<close>

text \<open>
  C5: the construction from rate times, evolution times and relevance rates fails,
  and produces no object, if and only if one of the preconditions is violated:
  more than one rate time; a first rate time that is not negative; strictly
  increasing rate times; evolution times (the defaulted ones when none are
  given) that are not empty and strictly increasing; a last rate time not before
  the last evolution time; and relevance rates, when given, as many as the steps.
  With a single rate time the construction fails, with the error of the first
  check. Otherwise an object is returned.
\<close>

theorem C5_construction_fails_iff:
  "((\<exists>e. make_EvolutionDescription rts ets0 rrs = Inl e) \<longleftrightarrow> \<not> preconditions rts ets0 rrs) \<and>
   ((\<exists>ev. make_EvolutionDescription rts ets0 rrs = Inr ev) \<longleftrightarrow> preconditions rts ets0 rrs) \<and>
   (length rts = 1 \<longrightarrow> make_EvolutionDescription rts ets0 rrs = Inl TooFewRateTimes)"
proof (intro conjI impI)
  show "(\<exists>e. make_EvolutionDescription rts ets0 rrs = Inl e) \<longleftrightarrow> \<not> preconditions rts ets0 rrs"
    using make_EvolutionDescription_invalid [of rts ets0 rrs]
      make_EvolutionDescription_valid [of rts ets0 rrs] by auto
  show "(\<exists>ev. make_EvolutionDescription rts ets0 rrs = Inr ev) \<longleftrightarrow> preconditions rts ets0 rrs"
  proof (cases "preconditions rts ets0 rrs")
    case True
    then show ?thesis
      using make_EvolutionDescription_valid [of rts ets0 rrs] by simp
  next
    case False
    then obtain e where "make_EvolutionDescription rts ets0 rrs = Inl e"
      using make_EvolutionDescription_invalid by blast
    with False show ?thesis by simp
  qed
next
  assume "length rts = 1"
  then have "rts \<noteq> []" "checkRateTimes rts = Inl TooFewRateTimes"
    by (auto simp: checkRateTimes_def)
  then show "make_EvolutionDescription rts ets0 rrs = Inl TooFewRateTimes"
    by (simp add: make_EvolutionDescription_def and_then_def)
qed

theorem C5_construction_fails_iff_witness:
  "preconditions [0, 1, 2, 3] [] [] \<and>
   (\<exists>ev. make_EvolutionDescription [0, 1, 2, 3] [] [] = Inr ev) \<and>
   \<not> preconditions [0, 2, 1] [] [] \<and>
   (\<exists>e. make_EvolutionDescription [0, 2, 1] [] [] = Inl e) \<and>
   make_EvolutionDescription [5] [] [] = Inl TooFewRateTimes"
proof -
  have "preconditions [0, 1, 2, 3] [] []" and "\<not> preconditions [0, 2, 1] [] []"
    by (simp_all add: preconditions_def)
  moreover have "length [5 :: Time] = 1"
    by simp
  ultimately show ?thesis
    using C5_construction_fails_iff [of "[0, 1, 2, 3]" "[]" "[]"]
      C5_construction_fails_iff [of "[0, 2, 1]" "[]" "[]"]
      C5_construction_fails_iff [of "[5]" "[]" "[]"]
    by blast
qed

subsection \<open>C6: accrual periods and effective stop times\<close>

text \<open>
  C6: in every constructed evolution description, \<open>rateTaus()[i]\<close> is
  \<open>rateTimes[i+1] - rateTimes[i]\<close>, the difference of the two doubles as the
  machine computes it (rounded to the nearest double), for every
  \<open>i < numberOfRates()\<close>; each of them is strictly positive when the rate times
  are doubles; and \<open>effectiveStopTime()[j][i]\<close> is the minimum of
  \<open>evolutionTimes[j]\<close> and \<open>rateTimes[i]\<close> for every step \<open>j\<close> and every rate
  index \<open>i\<close>.
\<close>

theorem C6_rateTaus_effectiveStopTime:
  assumes "make_EvolutionDescription rts ets0 rrs = Inr ev"
  shows "length (rateTaus ev) = numberOfRates ev \<and>
         (\<forall>i<numberOfRates ev.
            rateTaus ev ! i = double_sub (rateTimes ev ! (i + 1)) (rateTimes ev ! i)) \<and>
         ((\<forall>t\<in>set (rateTimes ev). is_double t) \<longrightarrow>
            (\<forall>i<numberOfRates ev. 0 < rateTaus ev ! i)) \<and>
         length (effectiveStopTime ev) = numberOfSteps ev \<and>
         (\<forall>j<numberOfSteps ev.
            length (effectiveStopTime ev ! j) = numberOfRates ev \<and>
            (\<forall>i<numberOfRates ev.
               effectiveStopTime ev ! j ! i = min (evolutionTimes ev ! j) (rateTimes ev ! i)))"
proof -
  note ev = make_EvolutionDescription_InrD [OF assms]
  have n: "numberOfRates ev = length rts - 1"
    using numberOfRates_made(1) [OF assms] ev(2) by simp
  have inc: "sorted_wrt (<) rts"
    using ev(1) by (rule preconditionsD(3)) simp
  have taus: "rateTaus ev = map (\<lambda>i. double_sub (rts ! (i + 1)) (rts ! i)) [0..<length rts - 1]"
    by (simp add: ev(5) setupRateTaus_eq)
  have stop: "effectiveStopTime ev =
      map (\<lambda>j. map (\<lambda>i. min (evolutionTimes ev ! j) (rts ! i)) [0..<length rts - 1])
          [0..<length (evolutionTimes ev)]"
    by (simp add: effectiveStopTime_def ev(6) setupEffStopTime_eq)
  have pos: "0 < rateTaus ev ! i" if dbl: "\<forall>t\<in>set rts. is_double t" and i: "i < length rts - 1" for i
  proof -
    have "rts ! i < rts ! (i + 1)"
      using increasing_nth_less [OF inc, of i "i + 1"] i by simp
    moreover have "is_double (rts ! i)" "is_double (rts ! (i + 1))"
      using dbl i by simp_all
    ultimately have "0 < double_sub (rts ! (i + 1)) (rts ! i)"
      by (intro double_sub_pos)
    then show ?thesis
      using i by (simp add: taus)
  qed
  show ?thesis
    unfolding n numberOfSteps_def ev(2)
    using pos by (simp add: taus stop)
qed

theorem C6_rateTaus_effectiveStopTime_witness:
  "numberOfRates scenario = 3 \<and> numberOfSteps scenario = 3 \<and>
   rateTaus scenario ! 2 = double_sub (rateTimes scenario ! 3) (rateTimes scenario ! 2) \<and>
   0 < rateTaus scenario ! 2 \<and>
   effectiveStopTime scenario ! 1 ! 2 = min (evolutionTimes scenario ! 1) (rateTimes scenario ! 2)"
proof -
  have n: "numberOfRates scenario = 3" "numberOfSteps scenario = 3"
    by (simp_all add: numberOfRates_def numberOfSteps_def size_minus_one_def scenario_def)
  have "is_double 0"
    by (simp add: is_double_def round_double_def round_half_even_def)
  moreover have "is_double 1" "is_double 2" "is_double 3"
    by code_simp+
  ultimately have "is_double 0" "is_double 1" "is_double 2" "is_double 3"
    by blast+
  then have dbl: "\<forall>t\<in>set (rateTimes scenario). is_double t"
    by (simp add: scenario_def)
  note c6 = C6_rateTaus_effectiveStopTime [OF scenario_made, unfolded n]
  from c6 dbl have taus: "\<forall>i<3. rateTaus scenario ! i =
        double_sub (rateTimes scenario ! (i + 1)) (rateTimes scenario ! i)"
    and pos: "\<forall>i<3. 0 < rateTaus scenario ! i"
    and stop: "\<forall>j<3. length (effectiveStopTime scenario ! j) = 3 \<and>
      (\<forall>i<3. effectiveStopTime scenario ! j ! i =
         min (evolutionTimes scenario ! j) (rateTimes scenario ! i))"
    by blast+
  from taus [rule_format, of 2] pos [rule_format, of 2]
    stop [rule_format, of 1, THEN conjunct2, rule_format, of 2] n
  show ?thesis
    by simp
qed

subsection \<open>C7: the terminal measure\<close>

text \<open>
  C7: \<open>terminalMeasure(evolution)\<close> returns a vector of \<open>numberOfSteps()\<close> entries,
  each equal to \<open>rateTimes.size()-1\<close>; on numeraires that are not empty
  \<open>isInTerminalMeasure(evolution, numeraires)\<close> returns true if and only if their
  minimum equals \<open>rateTimes.size()-1\<close>; so, for an evolution description with at
  least one step (every constructed one),
  \<open>isInTerminalMeasure(evolution, terminalMeasure(evolution))\<close> is true.
  (\<open>rateTimes.size()-1\<close> is computed in \<open>Size\<close>; for rate times that are not
  empty it is the length minus one.)
\<close>

theorem C7_terminalMeasure:
  "length (terminalMeasure ev) = numberOfSteps ev \<and>
   (\<forall>i<numberOfSteps ev. terminalMeasure ev ! i = size_minus_one (length (rateTimes ev))) \<and>
   (numeraires \<noteq> [] \<longrightarrow>
      isInTerminalMeasure ev numeraires =
        Inr (Min (set numeraires) = size_minus_one (length (rateTimes ev)))) \<and>
   (0 < numberOfSteps ev \<longrightarrow> isInTerminalMeasure ev (terminalMeasure ev) = Inr True) \<and>
   (rateTimes ev \<noteq> [] \<longrightarrow> size_minus_one (length (rateTimes ev)) = length (rateTimes ev) - 1)"
proof (intro conjI impI allI)
  show "length (terminalMeasure ev) = numberOfSteps ev"
    by (simp add: terminalMeasure_def numberOfSteps_def)
  show "terminalMeasure ev ! i = size_minus_one (length (rateTimes ev))"
    if "i < numberOfSteps ev" for i
    using that by (simp add: terminalMeasure_def numberOfSteps_def)
  show iff: "isInTerminalMeasure ev nums =
        Inr (Min (set nums) = size_minus_one (length (rateTimes ev)))" if "nums \<noteq> []" for nums
    using that by (simp add: isInTerminalMeasure_def min_element_Min)
  show "isInTerminalMeasure ev (terminalMeasure ev) = Inr True" if "0 < numberOfSteps ev"
  proof -
    have "terminalMeasure ev \<noteq> []"
      and "set (terminalMeasure ev) = {size_minus_one (length (rateTimes ev))}"
      using that by (auto simp: terminalMeasure_def numberOfSteps_def)
    then show ?thesis
      by (simp add: iff)
  qed
  show "size_minus_one (length (rateTimes ev)) = length (rateTimes ev) - 1"
    if "rateTimes ev \<noteq> []"
    using that by (simp add: size_minus_one_pos)
qed

theorem C7_terminalMeasure_witness:
  "terminalMeasure scenario = [3, 3, 3] \<and>
   isInTerminalMeasure scenario (terminalMeasure scenario) = Inr True \<and>
   isInTerminalMeasure scenario [3, 2, 3] = Inr False"
proof -
  have n: "numberOfSteps scenario = 3" "size_minus_one (length (rateTimes scenario)) = 3"
    by (simp_all add: numberOfSteps_def size_minus_one_def scenario_def)
  have "terminalMeasure scenario = [3, 3, 3]"
    by code_simp
  then show ?thesis
    using C7_terminalMeasure [of scenario "[3, 2, 3]", unfolded n] by simp
qed

subsection \<open>C8: the range error of the offset\<close>

text \<open>
  C8: \<open>moneyMarketPlusMeasure(ev, offset)\<close> and
  \<open>isInMoneyMarketPlusMeasure(ev, numeraires, offset)\<close> fail with the range error,
  which reports the offset and the largest value allowed, if and only if
  \<open>offset > rateTimes.size()-1\<close>; with \<open>offset \<le> rateTimes.size()-1\<close> neither of
  them raises a range error. (\<open>rateTimes.size()-1\<close> is computed in \<open>Size\<close>; for
  rate times that are not empty it is the length minus one.)
\<close>

theorem C8_offset_range_error:
  "(moneyMarketPlusMeasure ev offset =
      Inl (OffsetTooLarge offset (size_minus_one (length (rateTimes ev)))) \<longleftrightarrow>
    offset > size_minus_one (length (rateTimes ev))) \<and>
   (isInMoneyMarketPlusMeasure ev numeraires offset =
      Inl (OffsetTooLarge offset (size_minus_one (length (rateTimes ev)))) \<longleftrightarrow>
    offset > size_minus_one (length (rateTimes ev))) \<and>
   (offset \<le> size_minus_one (length (rateTimes ev)) \<longrightarrow>
      (\<forall>a b. moneyMarketPlusMeasure ev offset \<noteq> Inl (OffsetTooLarge a b)) \<and>
      (\<forall>a b. isInMoneyMarketPlusMeasure ev numeraires offset \<noteq> Inl (OffsetTooLarge a b))) \<and>
   (rateTimes ev \<noteq> [] \<longrightarrow> size_minus_one (length (rateTimes ev)) = length (rateTimes ev) - 1)"
proof (intro conjI impI allI)
  show "moneyMarketPlusMeasure ev offset =
      Inl (OffsetTooLarge offset (size_minus_one (length (rateTimes ev)))) \<longleftrightarrow>
    offset > size_minus_one (length (rateTimes ev))"
    using moneyMarketPlusMeasure_InlD [of ev offset]
    by (auto simp: moneyMarketPlusMeasure_def Let_def)
  show "isInMoneyMarketPlusMeasure ev numeraires offset =
      Inl (OffsetTooLarge offset (size_minus_one (length (rateTimes ev)))) \<longleftrightarrow>
    offset > size_minus_one (length (rateTimes ev))"
    using isInMoneyMarketPlusMeasure_InlD [of ev numeraires offset]
    by (auto simp: isInMoneyMarketPlusMeasure_def Let_def)
next
  fix a b assume "offset \<le> size_minus_one (length (rateTimes ev))"
  then show "moneyMarketPlusMeasure ev offset \<noteq> Inl (OffsetTooLarge a b)"
    using moneyMarketPlusMeasure_InlD [of ev offset "OffsetTooLarge a b"] by auto
next
  fix a b assume "offset \<le> size_minus_one (length (rateTimes ev))"
  then show "isInMoneyMarketPlusMeasure ev numeraires offset \<noteq> Inl (OffsetTooLarge a b)"
    using isInMoneyMarketPlusMeasure_InlD [of ev numeraires offset "OffsetTooLarge a b"] by auto
next
  assume "rateTimes ev \<noteq> []"
  then show "size_minus_one (length (rateTimes ev)) = length (rateTimes ev) - 1"
    by (simp add: size_minus_one_pos)
qed

theorem C8_offset_range_error_witness:
  "moneyMarketPlusMeasure scenario 4 = Inl (OffsetTooLarge 4 3) \<and>
   isInMoneyMarketPlusMeasure scenario [3, 3, 3] 4 = Inl (OffsetTooLarge 4 3) \<and>
   moneyMarketPlusMeasure scenario 3 \<noteq> Inl (OffsetTooLarge 3 3) \<and>
   isInMoneyMarketPlusMeasure scenario [3, 3, 3] 3 \<noteq> Inl (OffsetTooLarge 3 3)"
proof -
  have m: "size_minus_one (length (rateTimes scenario)) = 3"
    by (simp add: size_minus_one_def scenario_def)
  show ?thesis
    using C8_offset_range_error [of scenario 4 "[3, 3, 3]", unfolded m]
      C8_offset_range_error [of scenario 3 "[3, 3, 3]", unfolded m]
    by simp
qed

subsection \<open>C9: the cursors stay inside the rate times\<close>

text \<open>
  C9: in every constructed evolution description the cursor loops end inside
  \<open>rateTimes\<close>. The model returns \<open>OutOfBounds\<close> as soon as a loop reads
  \<open>rateTimes[j]\<close> with \<open>j > rateTimes.size()-1\<close>, and the loops are total
  functions. The sweep of the constructor returns the first alive rates, all of
  them at most \<open>rateTimes.size()-1\<close>; for every step \<open>i\<close> there is a rate index
  \<open>c \<le> rateTimes.size()-1\<close> at which the loop
  \<open>while (rateTimes[j] < evolutionTimes[i]) j++\<close> stops from every start \<open>j \<le> c\<close>;
  \<open>moneyMarketPlusMeasure\<close> returns a vector for every offset up to
  \<open>rateTimes.size()-1\<close>, and \<open>isInMoneyMarketPlusMeasure\<close> returns a truth value
  for every such offset and every vector with an entry for each step.
\<close>

theorem C9_cursors_in_bounds:
  assumes "make_EvolutionDescription rts ets0 rrs = Inr ev"
  shows "setupFirstAliveRate (rateTimes ev) (evolutionTimes ev) = Inr (firstAliveRate ev) \<and>
         (\<forall>j<numberOfSteps ev. firstAliveRate ev ! j \<le> length (rateTimes ev) - 1) \<and>
         (\<forall>i<numberOfSteps ev. \<exists>c\<le>length (rateTimes ev) - 1. \<forall>j\<le>c.
            advance_while (\<lambda>t. t < evolutionTimes ev ! i) (rateTimes ev) j = Inr c) \<and>
         (\<forall>k\<le>length (rateTimes ev) - 1. \<exists>numeraires. moneyMarketPlusMeasure ev k = Inr numeraires) \<and>
         (\<forall>k\<le>length (rateTimes ev) - 1. \<forall>numeraires.
            numberOfSteps ev \<le> length numeraires \<longrightarrow>
            (\<exists>res. isInMoneyMarketPlusMeasure ev numeraires k = Inr res))"
proof -
  note ev = make_EvolutionDescription_InrD [OF assms]
  define ets where "ets = evolutionTimes ev"
  note pre = preconditionsD [OF ev(1) ev(3), folded ets_def]
  have sweep: "setupFirstAliveRate rts ets = Inr (firstAliveRate ev)"
    using ev(8) by (simp add: ets_def)
  have fa: "firstAliveRate ev ! j \<le> length rts - 1" if "j < length ets" for j
    using first_alive_in_bounds [OF pre(1,2,3,6,7) that] that
    by (simp add: ev(7) flip: ets_def)
  have cursor: "\<exists>c\<le>length rts - 1. \<forall>j\<le>c. advance_while (\<lambda>t. t < ets ! i) rts j = Inr c"
    if "i < length ets" for i
  proof (intro exI conjI allI impI)
    show "length (takeWhile (\<lambda>t. t < ets ! i) rts) \<le> length rts - 1"
      using cursor_in_bounds [OF pre(6,7,4) that] by simp
    fix j assume "j \<le> length (takeWhile (\<lambda>t. t < ets ! i) rts)"
    then show "advance_while (\<lambda>t. t < ets ! i) rts j = Inr (length (takeWhile (\<lambda>t. t < ets ! i) rts))"
      using cursor_in_bounds [OF pre(6,7,4) that] by (rule advance_while_takeWhile)
  qed
  have gen: "\<exists>numeraires. moneyMarketPlusMeasure ev k = Inr numeraires" if "k \<le> length rts - 1" for k
    using moneyMarketPlusMeasure_eq [OF ev(2) ets_def [symmetric] pre(6,7,4) that] by blast
  have chk: "\<exists>res. isInMoneyMarketPlusMeasure ev numeraires k = Inr res"
    if "k \<le> length rts - 1" "length ets \<le> length numeraires" for k numeraires
    using isInMoneyMarketPlusMeasure_eq [OF ev(2) ets_def [symmetric] pre(6,7,4) that] by blast
  show ?thesis
    using sweep fa cursor gen chk
    by (simp add: numberOfSteps_def ev(2) flip: ets_def)
qed

theorem C9_cursors_in_bounds_witness:
  "setupFirstAliveRate (rateTimes scenario) (evolutionTimes scenario) = Inr [1, 1, 2] \<and>
   (\<exists>c\<le>3. advance_while (\<lambda>t. t < evolutionTimes scenario ! 2) (rateTimes scenario) 0 = Inr c) \<and>
   (\<exists>numeraires. moneyMarketPlusMeasure scenario 3 = Inr numeraires) \<and>
   (\<exists>res. isInMoneyMarketPlusMeasure scenario [0, 1, 2] 0 = Inr res)"
proof -
  have n: "numberOfSteps scenario = 3" "length (rateTimes scenario) - 1 = 3"
    "firstAliveRate scenario = [1, 1, 2]"
    by (simp_all add: numberOfSteps_def scenario_def)
  note c9 = C9_cursors_in_bounds [OF scenario_made, unfolded n]
  from c9 have sweep: "setupFirstAliveRate (rateTimes scenario) (evolutionTimes scenario) = Inr [1, 1, 2]"
    and cursor: "\<forall>i<3. \<exists>c\<le>3. \<forall>j\<le>c.
            advance_while (\<lambda>t. t < evolutionTimes scenario ! i) (rateTimes scenario) j = Inr c"
    and gen: "\<forall>k\<le>3. \<exists>numeraires. moneyMarketPlusMeasure scenario k = Inr numeraires"
    and chk: "\<forall>k\<le>3. \<forall>numeraires. 3 \<le> length numeraires \<longrightarrow>
            (\<exists>res. isInMoneyMarketPlusMeasure scenario numeraires k = Inr res)"
    by blast+
  from cursor [rule_format, of 2]
  have "\<exists>c\<le>3. advance_while (\<lambda>t. t < evolutionTimes scenario ! 2) (rateTimes scenario) 0 = Inr c"
    by auto
  moreover from gen [rule_format, of 3]
  have "\<exists>numeraires. moneyMarketPlusMeasure scenario 3 = Inr numeraires"
    by simp
  moreover from chk [rule_format, of 0 "[0, 1, 2]"]
  have "\<exists>res. isInMoneyMarketPlusMeasure scenario [0, 1, 2] 0 = Inr res"
    by simp
  ultimately show ?thesis
    using sweep by blast
qed

subsection \<open>C10: the classifiers do not check the length of the numeraires\<close>

text \<open>
  C10: unlike \<open>checkCompatibility\<close>, which reports a size mismatch, the classifiers
  never do. \<open>isInTerminalMeasure\<close> dereferences the minimum element: it is
  defined exactly when the numeraires are not empty. In a constructed evolution
  description and for an offset in range, \<open>isInMoneyMarketPlusMeasure\<close> reads
  \<open>numeraires[i]\<close> for every step: it is defined when the numeraires have at
  least \<open>numberOfSteps()\<close> entries, and reads past the end otherwise.
\<close>

theorem C10_classifiers_without_length_check:
  "(isInTerminalMeasure ev numeraires = Inl OutOfBounds \<longleftrightarrow> numeraires = []) \<and>
   (numeraires \<noteq> [] \<longrightarrow> (\<exists>res. isInTerminalMeasure ev numeraires = Inr res)) \<and>
   (\<forall>a b. isInTerminalMeasure ev numeraires \<noteq> Inl (SizeMismatch a b)) \<and>
   (\<forall>a b. isInMoneyMarketPlusMeasure ev numeraires offset \<noteq> Inl (SizeMismatch a b)) \<and>
   (make_EvolutionDescription rts ets0 rrs = Inr ev \<and> offset \<le> length (rateTimes ev) - 1 \<longrightarrow>
      (isInMoneyMarketPlusMeasure ev numeraires offset = Inl OutOfBounds \<longleftrightarrow>
         length numeraires < numberOfSteps ev) \<and>
      (numberOfSteps ev \<le> length numeraires \<longrightarrow>
         (\<exists>res. isInMoneyMarketPlusMeasure ev numeraires offset = Inr res))) \<and>
   (length numeraires \<noteq> numberOfSteps ev \<longrightarrow>
      checkCompatibility ev numeraires =
        Inl (SizeMismatch (length numeraires) (numberOfSteps ev)))"
proof (intro conjI impI allI)
  show "isInTerminalMeasure ev numeraires = Inl OutOfBounds \<longleftrightarrow> numeraires = []"
    by (cases numeraires) (simp_all add: isInTerminalMeasure_def)
  show "\<exists>res. isInTerminalMeasure ev numeraires = Inr res" if "numeraires \<noteq> []"
    using that by (cases numeraires) (simp_all add: isInTerminalMeasure_def)
  show "isInTerminalMeasure ev numeraires \<noteq> Inl (SizeMismatch a b)" for a b
    by (cases numeraires) (simp_all add: isInTerminalMeasure_def)
  show "isInMoneyMarketPlusMeasure ev numeraires offset \<noteq> Inl (SizeMismatch a b)" for a b
    using isInMoneyMarketPlusMeasure_InlD [of ev numeraires offset "SizeMismatch a b"] by auto
  show "checkCompatibility ev numeraires =
        Inl (SizeMismatch (length numeraires) (numberOfSteps ev))"
    if "length numeraires \<noteq> numberOfSteps ev"
    using that by (simp add: numberOfSteps_def checkCompatibility_size_mismatch)
next
  assume a: "make_EvolutionDescription rts ets0 rrs = Inr ev \<and> offset \<le> length (rateTimes ev) - 1"
  note ev = make_EvolutionDescription_InrD [OF a [THEN conjunct1]]
  note pre = preconditionsD [OF ev(1) ev(3)]
  have k: "offset \<le> length rts - 1"
    using a by (simp add: ev(2))
  have long: "\<exists>res. isInMoneyMarketPlusMeasure ev numeraires offset = Inr res"
    if "length (evolutionTimes ev) \<le> length numeraires"
    using isInMoneyMarketPlusMeasure_eq [OF ev(2) refl pre(6,7,4) k that] by blast
  have short: "isInMoneyMarketPlusMeasure ev numeraires offset = Inl OutOfBounds"
    if "length numeraires < length (evolutionTimes ev)"
    using ev(2) refl pre(6,7,4) k that by (rule isInMoneyMarketPlusMeasure_short)
  show "isInMoneyMarketPlusMeasure ev numeraires offset = Inl OutOfBounds \<longleftrightarrow>
         length numeraires < numberOfSteps ev"
    using long short unfolding numberOfSteps_def
    by (cases "length numeraires < length (evolutionTimes ev)") auto
  show "\<exists>res. isInMoneyMarketPlusMeasure ev numeraires offset = Inr res"
    if "numberOfSteps ev \<le> length numeraires"
    using long that by (simp add: numberOfSteps_def)
qed

theorem C10_classifiers_without_length_check_witness:
  "isInTerminalMeasure scenario [] = Inl OutOfBounds \<and>
   isInMoneyMarketPlusMeasure scenario [0, 1] 0 = Inl OutOfBounds \<and>
   (\<exists>res. isInTerminalMeasure scenario [3] = Inr res) \<and>
   (\<exists>res. isInMoneyMarketPlusMeasure scenario [0, 1, 2, 7] 0 = Inr res) \<and>
   checkCompatibility scenario [0, 1] = Inl (SizeMismatch 2 3)"
proof -
  have n: "numberOfSteps scenario = 3" "length (rateTimes scenario) - 1 = 3"
    by (simp_all add: numberOfSteps_def scenario_def)
  show ?thesis
    using C10_classifiers_without_length_check [of scenario "[]" 0 "[0, 1, 2, 3]" "[]" "[]", unfolded n]
      C10_classifiers_without_length_check [of scenario "[0, 1]" 0 "[0, 1, 2, 3]" "[]" "[]", unfolded n]
      C10_classifiers_without_length_check [of scenario "[3]" 0 "[0, 1, 2, 3]" "[]" "[]", unfolded n]
      C10_classifiers_without_length_check [of scenario "[0, 1, 2, 7]" 0 "[0, 1, 2, 3]" "[]" "[]", unfolded n]
      scenario_made
    by simp
qed

end
